theory Spec2Isabelle
  imports Main "HOL-Library.FSet"
begin

section \<open>The crawler of scraper.py\<close>

text \<open>
  A shallow embedding of \<^verbatim>\<open>src/scraper.py\<close>: the functions \<^verbatim>\<open>fetch_url\<close>,
  \<^verbatim>\<open>allowed_by_robots\<close> and \<^verbatim>\<open>crawl\<close>. The network, the HTML parser and the URL
  library are not part of the repository: they are the fields of a record \<open>world\<close>, one
  fixed answer per argument for the whole run, and every theorem below holds for each
  world. Library calls that the source does not wrap in \<^verbatim>\<open>try\<close> are taken as total.
  Strings are lists of characters with code points below 256.
\<close>

type_synonym url = string
type_synonym html = string

subsection \<open>The collaborators\<close>

text \<open>\<^verbatim>\<open>urlparse(u)\<close>: only the two components the source reads.\<close>

record parse_result =
  scheme :: string
  netloc :: string

text \<open>
  What \<^verbatim>\<open>requests.get\<close> returns: a status code and the body (\<^verbatim>\<open>response.text\<close>).
\<close>

record response =
  status_code :: nat
  body :: string

text \<open>
  What \<^verbatim>\<open>RobotFileParser.read()\<close> meets at the robots.txt URL: an exception that leaves
  \<^verbatim>\<open>read\<close> (a network error, a timeout, a body that is not UTF-8), an
  \<^verbatim>\<open>HTTPError\<close> with its code (which \<^verbatim>\<open>read\<close> handles itself), or a body that
  \<^verbatim>\<open>parse\<close> turns into rules. The rules are kept as the answer they give to the user
  agent of \<^verbatim>\<open>HEADERS\<close> for each URL.
\<close>

datatype robots_response =
  ReadRaises
| ReadHTTPError nat
| ReadBody "url \<Rightarrow> bool"

record world =
  urlparse :: "url \<Rightarrow> parse_result"
  urljoin :: "url \<Rightarrow> string \<Rightarrow> url"
  requests_get :: "url \<Rightarrow> response option"
  robots_txt :: "url \<Rightarrow> robots_response"
  extract_text :: "html \<Rightarrow> string"
  hrefs :: "html \<Rightarrow> string list"

text \<open>
  \<open>requests_get w u = None\<close> is an exception raised by \<^verbatim>\<open>requests.get\<close> (connection
  error, timeout). \<open>extract_text\<close> is the text \<^verbatim>\<open>extract_text(html)\<close> returns and
  \<open>hrefs\<close> the \<^verbatim>\<open>href\<close> attributes of \<^verbatim>\<open>soup.find_all('a', href=True)\<close>, in document
  order; both are computed by BeautifulSoup.
\<close>

subsection \<open>\<^verbatim>\<open>fetch_url\<close>\<close>

text \<open>
  \<^verbatim>\<open>response.raise_for_status()\<close> raises for the codes 400 to 599. The result is
  \<open>None\<close> where the source raises.
\<close>

definition raise_for_status :: "response \<Rightarrow> bool" where
  "raise_for_status r \<longleftrightarrow> 400 \<le> status_code r \<and> status_code r < 600"

definition fetch_url :: "world \<Rightarrow> url \<Rightarrow> html option" where
  "fetch_url w u =
     (case requests_get w u of
        None \<Rightarrow> None
      | Some r \<Rightarrow> if raise_for_status r then None else Some (body r))"

subsection \<open>\<^verbatim>\<open>urllib.robotparser.RobotFileParser\<close>\<close>

text \<open>
  The class belongs to Python's standard library; \<^verbatim>\<open>allowed_by_robots\<close> calls its
  constructor, \<^verbatim>\<open>set_url\<close>, \<^verbatim>\<open>read\<close> and \<^verbatim>\<open>can_fetch\<close>, which are written here after
  \<^verbatim>\<open>urllib/robotparser.py\<close>. The record holds the three fields that \<^verbatim>\<open>can_fetch\<close>
  tests first, and the rules. \<open>last_checked\<close> is \<open>True\<close> when the library's time stamp
  is not 0, which is what \<^verbatim>\<open>can_fetch\<close> tests: until the file has been read, it
  answers that no URL may be fetched.
\<close>

record robot_file_parser =
  disallow_all :: bool
  allow_all :: bool
  last_checked :: bool
  rules :: "url \<Rightarrow> bool"

text \<open>\<^verbatim>\<open>RobotFileParser()\<close>: no entry, and with no entry the rules allow every URL.\<close>

definition new_parser :: robot_file_parser where
  "new_parser =
     \<lparr>disallow_all = False, allow_all = False, last_checked = False, rules = (\<lambda>_. True)\<rparr>"

text \<open>
  \<^verbatim>\<open>rp.read()\<close> inside the \<^verbatim>\<open>try\<close> of \<^verbatim>\<open>allowed_by_robots\<close>: an exception is logged
  and the parser stays as it was; 401 and 403 set \<^verbatim>\<open>disallow_all\<close>, the other codes
  from 400 to 499 set \<^verbatim>\<open>allow_all\<close>, any other \<^verbatim>\<open>HTTPError\<close> changes nothing; a body
  is parsed, which stamps the parser.
\<close>

definition read_robots :: "robots_response \<Rightarrow> robot_file_parser \<Rightarrow> robot_file_parser" where
  "read_robots resp rp =
     (case resp of
        ReadRaises \<Rightarrow> rp
      | ReadHTTPError code \<Rightarrow>
          if code = 401 \<or> code = 403 then rp\<lparr>disallow_all := True\<rparr>
          else if 400 \<le> code \<and> code < 500 then rp\<lparr>allow_all := True\<rparr>
          else rp
      | ReadBody rs \<Rightarrow> rp\<lparr>last_checked := True, rules := rs\<rparr>)"

definition can_fetch :: "robot_file_parser \<Rightarrow> url \<Rightarrow> bool" where
  "can_fetch rp u =
     (if disallow_all rp then False
      else if allow_all rp then True
      else if \<not> last_checked rp then False
      else rules rp u)"

subsection \<open>\<^verbatim>\<open>allowed_by_robots\<close>\<close>

text \<open>
  What the run does, in order: \<open>Pop u\<close> is \<^verbatim>\<open>queue.pop(0)\<close> returning \<open>u\<close>,
  \<open>RobotsRead r\<close> is \<^verbatim>\<open>rp.read()\<close> at the robots.txt URL \<open>r\<close>, \<open>Fetch u\<close> is the call
  \<^verbatim>\<open>fetch_url(u)\<close> whether it returns or raises, \<open>Write t\<close> is \<^verbatim>\<open>out.write(t)\<close>,
  \<open>Push u\<close> is \<^verbatim>\<open>queue.append(u)\<close> and \<open>Sleep\<close> is \<^verbatim>\<open>time.sleep(delay)\<close>. Logging
  is left out.
\<close>

datatype event =
  Pop url
| RobotsRead url
| Fetch url
| Write string
| Push url
| Sleep

definition origin :: "world \<Rightarrow> url \<Rightarrow> string" where
  "origin w u = scheme (urlparse w u) @ ''://'' @ netloc (urlparse w u)"

text \<open>
  The result is the answer, the updated dictionary \<^verbatim>\<open>robots_parsers\<close> and the events
  of the call (one read of robots.txt when the origin had no parser yet).
\<close>

definition allowed_by_robots ::
  "world \<Rightarrow> url \<Rightarrow> (string \<rightharpoonup> robot_file_parser)
     \<Rightarrow> bool \<times> (string \<rightharpoonup> robot_file_parser) \<times> event list" where
  "allowed_by_robots w u robots_parsers =
     (let base = origin w u in
      case robots_parsers base of
        Some rp \<Rightarrow> (can_fetch rp u, robots_parsers, [])
      | None \<Rightarrow>
          let robots_url = urljoin w base ''/robots.txt'';
              rp = read_robots (robots_txt w robots_url) new_parser
          in (can_fetch rp u, robots_parsers(base \<mapsto> rp), [RobotsRead robots_url]))"

subsection \<open>\<^verbatim>\<open>crawl\<close>\<close>

record config =
  max_pages :: int
  max_tokens :: "int option"
  allowed_domains :: "string set"

record state =
  seen :: "url fset"
  queue :: "url list"
  robots_parsers :: "string \<rightharpoonup> robot_file_parser"
  token_count :: int
  trace :: "event list"

text \<open>\<^verbatim>\<open>str.isspace\<close> on the code points below 256, and \<^verbatim>\<open>text.split()\<close>.\<close>

definition isspace :: "char \<Rightarrow> bool" where
  "isspace ch \<longleftrightarrow> ch \<in> set [CHR 0x09, CHR 0x0A, CHR 0x0B, CHR 0x0C, CHR 0x0D,
     CHR 0x1C, CHR 0x1D, CHR 0x1E, CHR 0x1F, CHR 0x20, CHR 0x85, CHR 0xA0]"

function split_ws :: "string \<Rightarrow> string list" where
  "split_ws [] = []"
| "split_ws (ch # cs) =
     (if isspace ch then split_ws cs
      else takeWhile (\<lambda>x. \<not> isspace x) (ch # cs)
             # split_ws (dropWhile (\<lambda>x. \<not> isspace x) cs))"
  by pat_completeness auto
termination
  by (relation "measure length") (auto simp: length_dropWhile_le less_Suc_eq_le)

text \<open>The guard of the \<^verbatim>\<open>while\<close> loop.\<close>

definition loop_cond :: "config \<Rightarrow> state \<Rightarrow> bool" where
  "loop_cond c s \<longleftrightarrow>
     queue s \<noteq> [] \<and> int (fcard (seen s)) < max_pages c
     \<and> (case max_tokens c of None \<Rightarrow> True | Some mt \<Rightarrow> token_count s < mt)"

text \<open>One pass of the \<^verbatim>\<open>for a in soup.find_all('a', href=True)\<close> loop.\<close>

definition follow_link :: "world \<Rightarrow> config \<Rightarrow> url \<Rightarrow> state \<Rightarrow> string \<Rightarrow> state" where
  "follow_link w c u s href =
     (let full = urljoin w u href; parsed_full = urlparse w full in
      if scheme parsed_full \<notin> {''http'', ''https''} then s
      else if netloc parsed_full \<notin> allowed_domains c then s
      else if full |\<notin>| seen s \<and> full \<notin> set (queue s)
        then s\<lparr>queue := queue s @ [full], trace := trace s @ [Push full]\<rparr>
      else s)"

definition follow_links :: "world \<Rightarrow> config \<Rightarrow> url \<Rightarrow> string list \<Rightarrow> state \<Rightarrow> state" where
  "follow_links w c u hs s = foldl (follow_link w c u) s hs"

text \<open>
  The \<^verbatim>\<open>if text:\<close> block. The flag is \<open>True\<close> when the source leaves the loop by
  \<^verbatim>\<open>break\<close>.
\<close>

definition write_text :: "config \<Rightarrow> string \<Rightarrow> state \<Rightarrow> bool \<times> state" where
  "write_text c txt s =
     (if txt \<noteq> [] then
        let s1 = s\<lparr>trace := trace s @ [Write (txt @ [CHR 0x0A, CHR 0x0A])]\<rparr> in
        case max_tokens c of
          None \<Rightarrow> (False, s1)
        | Some mt \<Rightarrow>
            let tokens = int (length (split_ws txt));
                s2 = s1\<lparr>token_count := token_count s1 + tokens\<rparr>
            in (token_count s2 \<ge> mt, s2)
      else (False, s))"

text \<open>
  The body of the \<^verbatim>\<open>while\<close> loop, entered with a queue that is not empty. The flag is
  \<open>True\<close> for \<^verbatim>\<open>break\<close> and \<open>False\<close> for \<^verbatim>\<open>continue\<close> and for the end of the body.
\<close>

definition crawl_body :: "world \<Rightarrow> config \<Rightarrow> state \<Rightarrow> bool \<times> state" where
  "crawl_body w c s =
     (case queue s of
        [] \<Rightarrow> (True, s)
      | u # rest \<Rightarrow>
          (let s1 = s\<lparr>queue := rest, trace := trace s @ [Pop u]\<rparr> in
           if u |\<in>| seen s1 then (False, s1)
           else
             (let (ok, rps, evs) = allowed_by_robots w u (robots_parsers s1);
                  s2 = s1\<lparr>robots_parsers := rps, trace := trace s1 @ evs\<rparr>
              in
              if \<not> ok then (False, s2\<lparr>seen := finsert u (seen s2)\<rparr>)
              else
                (case fetch_url w u of
                   None \<Rightarrow>
                     (False, s2\<lparr>seen := finsert u (seen s2),
                                 trace := trace s2 @ [Fetch u, Sleep]\<rparr>)
                 | Some page \<Rightarrow>
                     (let s3 = s2\<lparr>trace := trace s2 @ [Fetch u]\<rparr>;
                          (brk, s4) = write_text c (extract_text w page) s3
                      in
                      if brk then (True, s4)
                      else
                        (let s5 = s4\<lparr>seen := finsert u (seen s4)\<rparr>;
                             s6 = follow_links w c u (hrefs w page) s5
                         in (False, s6\<lparr>trace := trace s6 @ [Sleep]\<rparr>)))))))"

subsection \<open>Facts about one iteration\<close>

lemma follow_link_seen [simp]: "seen (follow_link w c u s h) = seen s"
  by (simp add: follow_link_def Let_def)

lemma follow_links_seen [simp]: "seen (follow_links w c u hs s) = seen s"
  unfolding follow_links_def by (induction hs arbitrary: s) simp_all

lemma write_text_seen [simp]: "seen (snd (write_text c txt s)) = seen s"
  by (simp add: write_text_def Let_def split: option.splits)

lemma write_text_queue [simp]: "queue (snd (write_text c txt s)) = queue s"
  by (simp add: write_text_def Let_def split: option.splits)

lemma write_text_eq:
  "write_text c txt s =
     (if txt = [] then (False, s)
      else case max_tokens c of
        None \<Rightarrow> (False, s\<lparr>trace := trace s @ [Write (txt @ [CHR 0x0A, CHR 0x0A])]\<rparr>)
      | Some mt \<Rightarrow> (mt \<le> token_count s + int (length (split_ws txt)),
           s\<lparr>trace := trace s @ [Write (txt @ [CHR 0x0A, CHR 0x0A])],
             token_count := token_count s + int (length (split_ws txt))\<rparr>))"
  by (simp add: write_text_def Let_def split: option.splits)

lemma crawl_body_cases [consumes 1, case_names seen denied failed page]:
  assumes "queue s = u # rest"
  obtains
    (seen) "u |\<in>| seen s"
      "crawl_body w c s = (False, s\<lparr>queue := rest, trace := trace s @ [Pop u]\<rparr>)"
  | (denied) rps evs where "u |\<notin>| seen s"
      "allowed_by_robots w u (robots_parsers s) = (False, rps, evs)"
      "crawl_body w c s =
         (False, s\<lparr>queue := rest, robots_parsers := rps, seen := finsert u (seen s),
                    trace := trace s @ Pop u # evs\<rparr>)"
  | (failed) rps evs where "u |\<notin>| seen s"
      "allowed_by_robots w u (robots_parsers s) = (True, rps, evs)"
      "fetch_url w u = None"
      "crawl_body w c s =
         (False, s\<lparr>queue := rest, robots_parsers := rps, seen := finsert u (seen s),
                    trace := trace s @ Pop u # evs @ [Fetch u, Sleep]\<rparr>)"
  | (page) rps evs page brk s4 where "u |\<notin>| seen s"
      "allowed_by_robots w u (robots_parsers s) = (True, rps, evs)"
      "fetch_url w u = Some page"
      "write_text c (extract_text w page)
         (s\<lparr>queue := rest, robots_parsers := rps,
             trace := trace s @ Pop u # evs @ [Fetch u]\<rparr>) = (brk, s4)"
      "crawl_body w c s =
         (if brk then (True, s4)
          else (False, (follow_links w c u (hrefs w page) (s4\<lparr>seen := finsert u (seen s4)\<rparr>))
                  \<lparr>trace := trace (follow_links w c u (hrefs w page)
                       (s4\<lparr>seen := finsert u (seen s4)\<rparr>)) @ [Sleep]\<rparr>))"
proof (cases "u |\<in>| seen s")
  case True
  with assms seen show ?thesis by (simp add: crawl_body_def)
next
  case unseen: False
  obtain ok rps evs where a: "allowed_by_robots w u (robots_parsers s) = (ok, rps, evs)"
    by (cases "allowed_by_robots w u (robots_parsers s)") auto
  show ?thesis
  proof (cases ok)
    case False
    with assms unseen a denied [of rps evs] show ?thesis
      by (simp add: crawl_body_def)
  next
    case True
    show ?thesis
    proof (cases "fetch_url w u")
      case None
      with assms unseen a True failed [of rps evs] show ?thesis
        by (simp add: crawl_body_def)
    next
      case (Some pg)
      obtain brk s4 where wt: "write_text c (extract_text w pg)
         (s\<lparr>queue := rest, robots_parsers := rps,
             trace := trace s @ Pop u # evs @ [Fetch u]\<rparr>) = (brk, s4)"
        by (cases "write_text c (extract_text w pg)
         (s\<lparr>queue := rest, robots_parsers := rps,
             trace := trace s @ Pop u # evs @ [Fetch u]\<rparr>)") auto
      with assms unseen a True Some page [of rps evs pg brk s4] show ?thesis
        by (simp add: crawl_body_def Let_def)
    qed
  qed
qed

text \<open>
  An iteration that does not break either drops an URL that was seen already, or adds
  the popped URL to \<open>seen\<close>.
\<close>

lemma crawl_body_progress:
  assumes "queue s = u # rest" and "crawl_body w c s = (False, s')"
  shows "(u |\<in>| seen s \<and> seen s' = seen s \<and> queue s' = rest)
       \<or> (u |\<notin>| seen s \<and> seen s' = finsert u (seen s))"
  using assms(1)
proof (cases rule: crawl_body_cases [where w = w and c = c])
  case (page rps evs page brk s4)
  have "seen s4 = seen (snd (write_text c (extract_text w page)
         (s\<lparr>queue := rest, robots_parsers := rps,
             trace := trace s @ Pop u # evs @ [Fetch u]\<rparr>)))"
    by (simp only: page(4) snd_conv)
  then have "seen s4 = seen s" by simp
  with page assms(2) show ?thesis by (auto split: if_splits)
qed (use assms(2) in auto)

subsection \<open>The loop\<close>

text \<open>
  The \<^verbatim>\<open>while\<close> loop. It ends on every input: an iteration either adds an URL to
  \<open>seen\<close>, whose size is bounded by \<open>max_pages\<close>, or shortens the queue.
\<close>

function crawl_loop :: "world \<Rightarrow> config \<Rightarrow> state \<Rightarrow> state" where
  "crawl_loop w c s =
     (if loop_cond c s then
        (case crawl_body w c s of
           (True, s') \<Rightarrow> s'
         | (False, s') \<Rightarrow> crawl_loop w c s')
      else s)"
  by pat_completeness auto
termination
proof (relation "measures [\<lambda>(w, c, s). nat (max_pages c - int (fcard (seen s))),
                           \<lambda>(w, c, s). length (queue s)]", goal_cases)
  case 1
  show ?case by simp
next
  case (2 w c s x s')
  from 2(1) obtain u rest where q: "queue s = u # rest"
    by (cases "queue s") (auto simp: loop_cond_def)
  from 2 have "crawl_body w c s = (False, s')" by simp
  from crawl_body_progress [OF q this]
  consider (old) "seen s' = seen s" "queue s' = rest"
    | (new) "u |\<notin>| seen s" "seen s' = finsert u (seen s)" by blast
  then show ?case
  proof cases
    case old
    with q show ?thesis by simp
  next
    case new
    from new have "fcard (seen s') = Suc (fcard (seen s))"
      by (simp add: fcard_finsert_disjoint)
    moreover from 2(1) have "int (fcard (seen s)) < max_pages c"
      by (simp add: loop_cond_def)
    ultimately show ?thesis by simp
  qed
qed

declare crawl_loop.simps [simp del]

lemma crawl_loop_stop: "\<not> loop_cond c s \<Longrightarrow> crawl_loop w c s = s"
  by (simp add: crawl_loop.simps [of w c s])

lemma crawl_loop_break:
  "loop_cond c s \<Longrightarrow> crawl_body w c s = (True, s') \<Longrightarrow> crawl_loop w c s = s'"
  by (simp add: crawl_loop.simps [of w c s])

lemma crawl_loop_continue:
  "loop_cond c s \<Longrightarrow> crawl_body w c s = (False, s')
   \<Longrightarrow> crawl_loop w c s = crawl_loop w c s'"
  by (simp add: crawl_loop.simps [of w c s])


text \<open>
  The first \<open>n\<close> iterations of the loop, for the states between two iterations. The
  flag is \<open>True\<close> when the loop has ended.
\<close>

fun crawl_iter :: "world \<Rightarrow> config \<Rightarrow> nat \<Rightarrow> state \<Rightarrow> bool \<times> state" where
  "crawl_iter w c 0 s = (\<not> loop_cond c s, s)"
| "crawl_iter w c (Suc n) s =
     (if loop_cond c s then
        (case crawl_body w c s of
           (True, s') \<Rightarrow> (True, s')
         | (False, s') \<Rightarrow> crawl_iter w c n s')
      else (True, s))"

text \<open>The state before the loop, and \<^verbatim>\<open>crawl\<close> itself; the result is the final state.\<close>

definition init_state :: "url list \<Rightarrow> state" where
  "init_state start_urls =
     \<lparr>seen = {||}, queue = start_urls, robots_parsers = Map.empty,
      token_count = 0, trace = []\<rparr>"

definition crawl_config :: "world \<Rightarrow> url list \<Rightarrow> int \<Rightarrow> int option \<Rightarrow> string list option \<Rightarrow> config" where
  "crawl_config w start_urls pages tokens domains =
     \<lparr>max_pages = pages, max_tokens = tokens,
      allowed_domains =
        (case domains of
           None \<Rightarrow> set (map (\<lambda>u. netloc (urlparse w u)) start_urls)
         | Some ds \<Rightarrow> set ds)\<rparr>"

definition crawl :: "world \<Rightarrow> url list \<Rightarrow> int \<Rightarrow> int option \<Rightarrow> string list option \<Rightarrow> state" where
  "crawl w start_urls pages tokens domains =
     crawl_loop w (crawl_config w start_urls pages tokens domains) (init_state start_urls)"

text \<open>The URLs popped, fetched and pushed, and the texts written, in order.\<close>

definition popped :: "event list \<Rightarrow> url list" where
  "popped tr = concat (map (\<lambda>e. case e of Pop u \<Rightarrow> [u] | _ \<Rightarrow> []) tr)"

definition fetched :: "event list \<Rightarrow> url list" where
  "fetched tr = concat (map (\<lambda>e. case e of Fetch u \<Rightarrow> [u] | _ \<Rightarrow> []) tr)"

definition pushed :: "event list \<Rightarrow> url list" where
  "pushed tr = concat (map (\<lambda>e. case e of Push u \<Rightarrow> [u] | _ \<Rightarrow> []) tr)"

definition written :: "event list \<Rightarrow> string list" where
  "written tr = concat (map (\<lambda>e. case e of Write t \<Rightarrow> [t] | _ \<Rightarrow> []) tr)"

subsection \<open>Events and links\<close>

lemma popped_simps [simp]:
  "popped [] = []" "popped (xs @ ys) = popped xs @ popped ys"
  "popped (Pop u # es) = u # popped es" "popped (RobotsRead u # es) = popped es"
  "popped (Fetch u # es) = popped es" "popped (Write t # es) = popped es"
  "popped (Push u # es) = popped es" "popped (Sleep # es) = popped es"
  by (simp_all add: popped_def)

lemma fetched_simps [simp]:
  "fetched [] = []" "fetched (xs @ ys) = fetched xs @ fetched ys"
  "fetched (Pop u # es) = fetched es" "fetched (RobotsRead u # es) = fetched es"
  "fetched (Fetch u # es) = u # fetched es" "fetched (Write t # es) = fetched es"
  "fetched (Push u # es) = fetched es" "fetched (Sleep # es) = fetched es"
  by (simp_all add: fetched_def)

lemma pushed_simps [simp]:
  "pushed [] = []" "pushed (xs @ ys) = pushed xs @ pushed ys"
  "pushed (Pop u # es) = pushed es" "pushed (RobotsRead u # es) = pushed es"
  "pushed (Fetch u # es) = pushed es" "pushed (Write t # es) = pushed es"
  "pushed (Push u # es) = u # pushed es" "pushed (Sleep # es) = pushed es"
  by (simp_all add: pushed_def)

lemma written_simps [simp]:
  "written [] = []" "written (xs @ ys) = written xs @ written ys"
  "written (Pop u # es) = written es" "written (RobotsRead u # es) = written es"
  "written (Fetch u # es) = written es" "written (Write t # es) = t # written es"
  "written (Push u # es) = written es" "written (Sleep # es) = written es"
  by (simp_all add: written_def)

lemma map_Push_simps [simp]:
  "popped (map Push xs) = []" "fetched (map Push xs) = []"
  "pushed (map Push xs) = xs" "written (map Push xs) = []" "Sleep \<notin> set (map Push xs)"
  by (induction xs) auto

lemma allowed_by_robots_events:
  assumes "allowed_by_robots w u rps = (ok, rps', evs)"
  shows "evs = [] \<or> evs = [RobotsRead (urljoin w (origin w u) ''/robots.txt'')]"
  using assms by (auto simp: allowed_by_robots_def Let_def split: option.splits)

text \<open>
  The two tests of the link loop that end in \<^verbatim>\<open>continue\<close>, negated: the scheme is
  http or https and the host is in the allowed domains.
\<close>

definition eligible :: "world \<Rightarrow> config \<Rightarrow> url \<Rightarrow> bool" where
  "eligible w c full \<longleftrightarrow>
     scheme (urlparse w full) \<in> {''http'', ''https''}
     \<and> netloc (urlparse w full) \<in> allowed_domains c"

lemma follow_link_eq:
  "follow_link w c u s h =
     (if eligible w c (urljoin w u h) \<and> urljoin w u h |\<notin>| seen s
         \<and> urljoin w u h \<notin> set (queue s)
      then s\<lparr>queue := queue s @ [urljoin w u h], trace := trace s @ [Push (urljoin w u h)]\<rparr>
      else s)"
  by (auto simp: follow_link_def eligible_def Let_def)

lemma follow_links_Nil [simp]: "follow_links w c u [] s = s"
  by (simp add: follow_links_def)

lemma follow_links_Cons [simp]:
  "follow_links w c u (h # hs) s = follow_links w c u hs (follow_link w c u s h)"
  by (simp add: follow_links_def)

lemma follow_link_token_count [simp]: "token_count (follow_link w c u s h) = token_count s"
  by (simp add: follow_link_eq)

lemma follow_link_robots_parsers [simp]:
  "robots_parsers (follow_link w c u s h) = robots_parsers s"
  by (simp add: follow_link_eq)

lemma follow_links_token_count [simp]:
  "token_count (follow_links w c u hs s) = token_count s"
  by (induction hs arbitrary: s) simp_all

lemma follow_links_robots_parsers [simp]:
  "robots_parsers (follow_links w c u hs s) = robots_parsers s"
  by (induction hs arbitrary: s) simp_all

lemma follow_links_appends:
  "\<exists>new. queue (follow_links w c u hs s) = queue s @ new
         \<and> trace (follow_links w c u hs s) = trace s @ map Push new
         \<and> (\<forall>x \<in> set new. x |\<notin>| seen s \<and> eligible w c x)"
proof (induction hs arbitrary: s)
  case Nil
  show ?case by simp
next
  case (Cons h hs)
  let ?full = "urljoin w u h"
  let ?s1 = "follow_link w c u s h"
  from Cons.IH [of ?s1] obtain new where n:
    "queue (follow_links w c u hs ?s1) = queue ?s1 @ new"
    "trace (follow_links w c u hs ?s1) = trace ?s1 @ map Push new"
    "\<forall>x \<in> set new. x |\<notin>| seen s \<and> eligible w c x"
    by auto
  show ?case
  proof (cases "eligible w c ?full \<and> ?full |\<notin>| seen s \<and> ?full \<notin> set (queue s)")
    case True
    then have "queue ?s1 = queue s @ [?full]" "trace ?s1 = trace s @ [Push ?full]"
      by (simp_all add: follow_link_eq)
    with n True have
      "queue (follow_links w c u (h # hs) s) = queue s @ (?full # new)
       \<and> trace (follow_links w c u (h # hs) s) = trace s @ map Push (?full # new)
       \<and> (\<forall>x \<in> set (?full # new). x |\<notin>| seen s \<and> eligible w c x)"
      by simp
    then show ?thesis by blast
  next
    case False
    then have "?s1 = s" by (simp add: follow_link_eq)
    with n have
      "queue (follow_links w c u (h # hs) s) = queue s @ new
       \<and> trace (follow_links w c u (h # hs) s) = trace s @ map Push new
       \<and> (\<forall>x \<in> set new. x |\<notin>| seen s \<and> eligible w c x)"
      by simp
    then show ?thesis by blast
  qed
qed



lemma follow_link_distinct:
  "distinct (queue s) \<Longrightarrow> distinct (queue (follow_link w c u s h))"
  by (simp add: follow_link_eq)

lemma follow_links_distinct:
  "distinct (queue s) \<Longrightarrow> distinct (queue (follow_links w c u hs s))"
  by (induction hs arbitrary: s) (simp_all add: follow_link_distinct)

lemma follow_links_queue_cong:
  "seen s = seen t \<Longrightarrow> queue s = queue t
   \<Longrightarrow> queue (follow_links w c u hs s) = queue (follow_links w c u hs t)"
proof (induction hs arbitrary: s t)
  case Nil
  then show ?case by simp
next
  case (Cons h hs)
  from Cons.prems have "seen (follow_link w c u s h) = seen (follow_link w c u t h)"
    and "queue (follow_link w c u s h) = queue (follow_link w c u t h)"
    by (simp_all add: follow_link_eq)
  then show ?case by (simp add: Cons.IH)
qed

text \<open>What one iteration does to the state, case by case.\<close>

lemma crawl_body_elim [consumes 2, case_names seen denied failed break page]:
  assumes "queue s = u # rest" and "crawl_body w c s = (brk, s')"
  obtains
    (seen) "u |\<in>| seen s" "\<not> brk"
      "s' = s\<lparr>queue := rest, trace := trace s @ [Pop u]\<rparr>"
  | (denied) rps evs where "u |\<notin>| seen s" "\<not> brk"
      "allowed_by_robots w u (robots_parsers s) = (False, rps, evs)"
      "s' = s\<lparr>queue := rest, robots_parsers := rps, seen := finsert u (seen s),
               trace := trace s @ Pop u # evs\<rparr>"
  | (failed) rps evs where "u |\<notin>| seen s" "\<not> brk"
      "allowed_by_robots w u (robots_parsers s) = (True, rps, evs)"
      "fetch_url w u = None"
      "s' = s\<lparr>queue := rest, robots_parsers := rps, seen := finsert u (seen s),
               trace := trace s @ Pop u # evs @ [Fetch u, Sleep]\<rparr>"
  | (break) rps evs page mt where "u |\<notin>| seen s" "brk"
      "allowed_by_robots w u (robots_parsers s) = (True, rps, evs)"
      "fetch_url w u = Some page" "extract_text w page \<noteq> []"
      "max_tokens c = Some mt"
      "mt \<le> token_count s + int (length (split_ws (extract_text w page)))"
      "s' = s\<lparr>queue := rest, robots_parsers := rps,
               trace := trace s @ Pop u # evs
                  @ [Fetch u, Write (extract_text w page @ [CHR 0x0A, CHR 0x0A])],
               token_count := token_count s + int (length (split_ws (extract_text w page)))\<rparr>"
  | (page) rps evs page new where "u |\<notin>| seen s" "\<not> brk"
      "allowed_by_robots w u (robots_parsers s) = (True, rps, evs)"
      "fetch_url w u = Some page"
      "seen s' = finsert u (seen s)" "queue s' = rest @ new" "robots_parsers s' = rps"
      "trace s' = trace s @ Pop u # evs @ [Fetch u]
          @ (if extract_text w page = [] then []
             else [Write (extract_text w page @ [CHR 0x0A, CHR 0x0A])])
          @ map Push new @ [Sleep]"
      "token_count s' = token_count s
          + (if extract_text w page = [] \<or> max_tokens c = None then 0
             else int (length (split_ws (extract_text w page))))"
      "\<forall>mt. max_tokens c = Some mt \<and> extract_text w page \<noteq> [] \<longrightarrow> token_count s' < mt"
      "\<forall>x \<in> set new. x \<noteq> u \<and> x |\<notin>| seen s \<and> eligible w c x"
      "queue s' = queue (follow_links w c u (hrefs w page)
          (s\<lparr>queue := rest, seen := finsert u (seen s)\<rparr>))"
  using assms(1)
proof (cases rule: crawl_body_cases [where w = w and c = c])
  case seen
  with assms(2) show ?thesis using that(1) by simp
next
  case (denied rps evs)
  with assms(2) show ?thesis using that(2) by simp
next
  case (failed rps evs)
  with assms(2) show ?thesis using that(3) by simp
next
  case (page rps evs pg b s4)
  let ?txt = "extract_text w pg"
  let ?s3 = "s\<lparr>queue := rest, robots_parsers := rps,
             trace := trace s @ Pop u # evs @ [Fetch u]\<rparr>"
  show ?thesis
  proof (cases b)
    case True
    with page(4) have ne: "?txt \<noteq> []"
      by (auto simp: write_text_eq split: if_splits)
    with True page(4) obtain mt where mt: "max_tokens c = Some mt"
      by (cases "max_tokens c") (auto simp: write_text_eq)
    from page(4) ne mt True
    have le: "mt \<le> token_count s + int (length (split_ws ?txt))"
      and s4: "s4 = ?s3\<lparr>trace := trace ?s3 @ [Write (?txt @ [CHR 0x0A, CHR 0x0A])],
             token_count := token_count ?s3 + int (length (split_ws ?txt))\<rparr>"
      by (auto simp: write_text_eq)
    from page(5) True assms(2) have "brk" "s' = s4" by simp_all
    with s4 show ?thesis
      using that(4) [OF page(1) _ page(2) page(3) ne mt le] by simp
  next
    case False
    let ?s5 = "s4\<lparr>seen := finsert u (seen s)\<rparr>"
    from page(4) False have f4:
      "seen s4 = seen s" "queue s4 = rest" "robots_parsers s4 = rps"
      "trace s4 = trace s @ Pop u # evs @ [Fetch u]
          @ (if ?txt = [] then [] else [Write (?txt @ [CHR 0x0A, CHR 0x0A])])"
      "token_count s4 = token_count s
          + (if ?txt = [] \<or> max_tokens c = None then 0 else int (length (split_ws ?txt)))"
      "\<forall>mt. max_tokens c = Some mt \<and> ?txt \<noteq> [] \<longrightarrow> token_count s4 < mt"
      by (auto simp: write_text_eq split: if_splits option.splits)
    from page(5) False assms(2) have nb: "\<not> brk"
      and s': "s' = (follow_links w c u (hrefs w pg) ?s5)
          \<lparr>trace := trace (follow_links w c u (hrefs w pg) ?s5) @ [Sleep]\<rparr>"
      by (simp_all add: f4(1))
    from follow_links_appends [of w c u "hrefs w pg" ?s5] obtain new where n:
      "queue (follow_links w c u (hrefs w pg) ?s5) = queue ?s5 @ new"
      "trace (follow_links w c u (hrefs w pg) ?s5) = trace ?s5 @ map Push new"
      "\<forall>x \<in> set new. x |\<notin>| seen ?s5 \<and> eligible w c x"
      by blast
    have q: "queue (follow_links w c u (hrefs w pg) ?s5)
        = queue (follow_links w c u (hrefs w pg) (s\<lparr>queue := rest, seen := finsert u (seen s)\<rparr>))"
      by (rule follow_links_queue_cong) (simp_all add: f4)
    show ?thesis
    proof (rule that(5) [OF page(1) nb page(2) page(3), of new])
      show "seen s' = finsert u (seen s)" by (simp add: s' f4)
      show "queue s' = rest @ new" by (simp add: s' n f4)
      show "robots_parsers s' = rps" by (simp add: s' f4)
      show "trace s' = trace s @ Pop u # evs @ [Fetch u]
          @ (if ?txt = [] then [] else [Write (?txt @ [CHR 0x0A, CHR 0x0A])])
          @ map Push new @ [Sleep]" by (simp add: s' n f4)
      show "token_count s' = token_count s
          + (if ?txt = [] \<or> max_tokens c = None then 0 else int (length (split_ws ?txt)))"
        by (simp add: s' f4)
      show "\<forall>mt. max_tokens c = Some mt \<and> ?txt \<noteq> [] \<longrightarrow> token_count s' < mt"
        using f4(6) by (simp add: s')
      show "\<forall>x \<in> set new. x \<noteq> u \<and> x |\<notin>| seen s \<and> eligible w c x"
        using n(3) by (auto simp: f4)
      show "queue s' = queue (follow_links w c u (hrefs w pg)
          (s\<lparr>queue := rest, seen := finsert u (seen s)\<rparr>))"
        by (simp add: s' q)
    qed
  qed
qed

subsection \<open>Runs\<close>

text \<open>After a \<^verbatim>\<open>break\<close> the guard of the loop is false.\<close>

lemma break_ends_loop:
  assumes "loop_cond c s" and "crawl_body w c s = (True, s')"
  shows "\<not> loop_cond c s'"
proof -
  from assms(1) obtain u rest where q: "queue s = u # rest"
    by (cases "queue s") (auto simp: loop_cond_def)
  from q assms(2) show ?thesis
    by (cases rule: crawl_body_elim) (simp_all add: loop_cond_def)
qed

lemma crawl_iter_invariant:
  assumes "I s"
    and "\<And>s b s'. I s \<Longrightarrow> loop_cond c s \<Longrightarrow> crawl_body w c s = (b, s') \<Longrightarrow> I s'"
  shows "I (snd (crawl_iter w c n s))"
  using assms(1)
proof (induction n arbitrary: s)
  case 0
  then show ?case by simp
next
  case (Suc n)
  show ?case
  proof (cases "loop_cond c s")
    case False
    with Suc.prems show ?thesis by simp
  next
    case True
    obtain b s' where b: "crawl_body w c s = (b, s')" by (cases "crawl_body w c s") auto
    from assms(2) [OF Suc.prems True b] have "I s'" .
    with Suc.IH [of s'] True b show ?thesis by (cases b) simp_all
  qed
qed

lemma crawl_iter_done:
  "crawl_iter w c n s = (True, s') \<Longrightarrow> crawl_loop w c s = s'"
proof (induction n arbitrary: s)
  case 0
  then have "\<not> loop_cond c s" and "s' = s" by auto
  then show ?case by (simp add: crawl_loop_stop crawl_loop_break crawl_loop_continue)
next
  case (Suc n)
  show ?case
  proof (cases "loop_cond c s")
    case False
    with Suc.prems show ?thesis by (simp add: crawl_loop_stop crawl_loop_break crawl_loop_continue)
  next
    case True
    obtain b t where b: "crawl_body w c s = (b, t)" by (cases "crawl_body w c s") auto
    show ?thesis
    proof (cases b)
      case True
      with b \<open>loop_cond c s\<close> Suc.prems show ?thesis
        by (simp add: crawl_loop_stop crawl_loop_break crawl_loop_continue)
    next
      case False
      with b \<open>loop_cond c s\<close> Suc.prems have "crawl_iter w c n t = (True, s')" by simp
      from Suc.IH [OF this] b False \<open>loop_cond c s\<close> show ?thesis
        by (simp add: crawl_loop_stop crawl_loop_break crawl_loop_continue)
    qed
  qed
qed

text \<open>The loop is the iteration run long enough.\<close>

lemma crawl_loop_iter: "\<exists>n. crawl_iter w c n s = (True, crawl_loop w c s)"
proof (induction w c s rule: crawl_loop.induct)
  case (1 w c s)
  show ?case
  proof (cases "loop_cond c s")
    case False
    then have "crawl_iter w c (Suc 0) s = (True, crawl_loop w c s)"
      by (simp add: crawl_loop_stop crawl_loop_break crawl_loop_continue)
    then show ?thesis by blast
  next
    case True
    obtain b t where b: "crawl_body w c s = (b, t)" by (cases "crawl_body w c s") auto
    show ?thesis
    proof (cases b)
      case True
      with b \<open>loop_cond c s\<close> have "crawl_iter w c (Suc 0) s = (True, crawl_loop w c s)"
        by (simp add: crawl_loop_stop crawl_loop_break crawl_loop_continue)
      then show ?thesis by blast
    next
      case False
      from "1.IH" [OF \<open>loop_cond c s\<close> b [symmetric]] False
      obtain n where "crawl_iter w c n t = (True, crawl_loop w c t)" by auto
      with b False \<open>loop_cond c s\<close> have "crawl_iter w c (Suc n) s = (True, crawl_loop w c s)"
        by (simp add: crawl_loop_stop crawl_loop_break crawl_loop_continue)
      then show ?thesis by blast
    qed
  qed
qed

lemma crawl_loop_invariant:
  assumes "I s"
    and "\<And>s b s'. I s \<Longrightarrow> loop_cond c s \<Longrightarrow> crawl_body w c s = (b, s') \<Longrightarrow> I s'"
  shows "I (crawl_loop w c s)"
proof -
  from crawl_loop_iter [of w c s] obtain n where "crawl_iter w c n s = (True, crawl_loop w c s)" ..
  then have "crawl_loop w c s = snd (crawl_iter w c n s)" by simp
  with crawl_iter_invariant [of I s c w n, OF assms] show ?thesis by simp
qed

lemma crawl_loop_stops: "\<not> loop_cond c (crawl_loop w c s)"
proof (induction w c s rule: crawl_loop.induct)
  case (1 w c s)
  show ?case
  proof (cases "loop_cond c s")
    case False
    then show ?thesis by (simp add: crawl_loop_stop crawl_loop_break crawl_loop_continue)
  next
    case True
    obtain b t where b: "crawl_body w c s = (b, t)" by (cases "crawl_body w c s") auto
    show ?thesis
    proof (cases b)
      case True
      with b \<open>loop_cond c s\<close> break_ends_loop [of c s w t] show ?thesis
        by (simp add: crawl_loop_stop crawl_loop_break crawl_loop_continue)
    next
      case False
      from "1.IH" [OF \<open>loop_cond c s\<close> b [symmetric]] False b \<open>loop_cond c s\<close>
      show ?thesis by (simp add: crawl_loop_stop crawl_loop_break crawl_loop_continue)
    qed
  qed
qed

lemma robots_events_proj:
  assumes "allowed_by_robots w u rps = (ok, rps', evs)"
  shows "popped evs = []" "fetched evs = []" "pushed evs = []" "written evs = []"
    "Sleep \<notin> set evs"
  using allowed_by_robots_events [OF assms] by auto

lemma loop_cond_queue:
  assumes "loop_cond c s"
  obtains u rest where "queue s = u # rest"
  using assms by (cases "queue s") (auto simp: loop_cond_def)

text \<open>
  While the loop runs, every URL that was fetched is in \<open>seen\<close>, and no URL is
  fetched twice.
\<close>

definition fetched_inv :: "config \<Rightarrow> state \<Rightarrow> bool" where
  "fetched_inv c s \<longleftrightarrow>
     distinct (fetched (trace s))
     \<and> (loop_cond c s \<longrightarrow> set (fetched (trace s)) \<subseteq> fset (seen s))"

lemma fetched_inv_step:
  assumes "fetched_inv c s" and "loop_cond c s" and "crawl_body w c s = (b, s')"
  shows "fetched_inv c s'"
proof -
  from assms(2) obtain u rest where q: "queue s = u # rest" by (rule loop_cond_queue)
  from assms(1,2) have d: "distinct (fetched (trace s))"
    and sub: "set (fetched (trace s)) \<subseteq> fset (seen s)"
    by (simp_all add: fetched_inv_def)
  from q assms(3) show ?thesis
  proof (cases rule: crawl_body_elim)
    case seen
    with d sub show ?thesis by (auto simp: fetched_inv_def)
  next
    case (denied rps evs)
    with d sub robots_events_proj(2) [OF denied(3)] show ?thesis
      by (auto simp: fetched_inv_def)
  next
    case (failed rps evs)
    with d sub robots_events_proj(2) [OF failed(3)] show ?thesis
      by (auto simp: fetched_inv_def)
  next
    case (break rps evs page mt)
    with d sub robots_events_proj(2) [OF break(3)] show ?thesis
      by (auto simp: fetched_inv_def loop_cond_def)
  next
    case (page rps evs page new)
    with d sub robots_events_proj(2) [OF page(3)] show ?thesis
      by (auto simp: fetched_inv_def)
  qed
qed

lemma fetched_inv_init: "fetched_inv c (init_state start_urls)"
  by (simp add: fetched_inv_def init_state_def)

lemma crawl_fetched_distinct:
  "distinct (fetched (trace (crawl w start_urls pages tokens domains)))"
proof -
  have "fetched_inv (crawl_config w start_urls pages tokens domains)
          (crawl w start_urls pages tokens domains)"
    unfolding crawl_def
    by (rule crawl_loop_invariant [where I = "fetched_inv (crawl_config w start_urls pages tokens domains)"])
       (auto intro: fetched_inv_init fetched_inv_step)
  then show ?thesis by (simp add: fetched_inv_def)
qed

text \<open>
  The number of fetches and the size of \<open>seen\<close> stay within \<open>max_pages\<close>.
\<close>

definition bound_inv :: "config \<Rightarrow> state \<Rightarrow> bool" where
  "bound_inv c s \<longleftrightarrow>
     int (length (fetched (trace s))) \<le> max 0 (max_pages c)
     \<and> int (fcard (seen s)) \<le> max 0 (max_pages c)
     \<and> (loop_cond c s \<longrightarrow> length (fetched (trace s)) \<le> fcard (seen s))"

lemma bound_inv_step:
  assumes "bound_inv c s" and "loop_cond c s" and "crawl_body w c s = (b, s')"
  shows "bound_inv c s'"
proof -
  from assms(2) obtain u rest where q: "queue s = u # rest" by (rule loop_cond_queue)
  from assms(1,2) have le: "length (fetched (trace s)) \<le> fcard (seen s)"
    and lt: "int (fcard (seen s)) < max_pages c"
    by (simp_all add: bound_inv_def loop_cond_def)
  from q assms(3) show ?thesis
  proof (cases rule: crawl_body_elim)
    case seen
    with le lt show ?thesis by (simp add: bound_inv_def)
  next
    case (denied rps evs)
    with le lt robots_events_proj(2) [OF denied(3)] show ?thesis
      by (simp add: bound_inv_def fcard_finsert_disjoint)
  next
    case (failed rps evs)
    with le lt robots_events_proj(2) [OF failed(3)] show ?thesis
      by (simp add: bound_inv_def fcard_finsert_disjoint)
  next
    case (break rps evs page mt)
    with le lt robots_events_proj(2) [OF break(3)] show ?thesis
      by (simp add: bound_inv_def loop_cond_def)
  next
    case (page rps evs page new)
    with le lt robots_events_proj(2) [OF page(3)] show ?thesis
      by (simp add: bound_inv_def fcard_finsert_disjoint)
  qed
qed

lemma bound_inv_init: "bound_inv c (init_state start_urls)"
  by (simp add: bound_inv_def init_state_def fcard_fempty)

text \<open>Only text that is not empty is written, followed by an empty line.\<close>

definition written_inv :: "state \<Rightarrow> bool" where
  "written_inv s \<longleftrightarrow>
     (\<forall>t \<in> set (written (trace s)). \<exists>txt. txt \<noteq> [] \<and> t = txt @ [CHR 0x0A, CHR 0x0A])"

lemma written_inv_step:
  assumes "written_inv s" and "loop_cond c s" and "crawl_body w c s = (b, s')"
  shows "written_inv s'"
proof -
  from assms(2) obtain u rest where q: "queue s = u # rest" by (rule loop_cond_queue)
  from q assms(3) show ?thesis
  proof (cases rule: crawl_body_elim)
    case seen
    with assms(1) show ?thesis by (simp add: written_inv_def)
  next
    case (denied rps evs)
    with assms(1) robots_events_proj(4) [OF denied(3)] show ?thesis
      by (simp add: written_inv_def)
  next
    case (failed rps evs)
    with assms(1) robots_events_proj(4) [OF failed(3)] show ?thesis
      by (simp add: written_inv_def)
  next
    case (break rps evs page mt)
    with assms(1) robots_events_proj(4) [OF break(3)] show ?thesis
      by (auto simp: written_inv_def)
  next
    case (page rps evs page new)
    with assms(1) robots_events_proj(4) [OF page(3)] show ?thesis
      by (auto simp: written_inv_def)
  qed
qed

text \<open>The queue is what was put in, in order, without what was taken out.\<close>

definition fifo_inv :: "url list \<Rightarrow> state \<Rightarrow> bool" where
  "fifo_inv start_urls s \<longleftrightarrow>
     popped (trace s) @ queue s = start_urls @ pushed (trace s)"

lemma fifo_inv_step:
  assumes "fifo_inv start_urls s" and "loop_cond c s" and "crawl_body w c s = (b, s')"
  shows "fifo_inv start_urls s'"
proof -
  from assms(2) obtain u rest where q: "queue s = u # rest" by (rule loop_cond_queue)
  from assms(1) q have f: "popped (trace s) @ u # rest = start_urls @ pushed (trace s)"
    by (simp add: fifo_inv_def)
  from q assms(3) show ?thesis
  proof (cases rule: crawl_body_elim)
    case seen
    with f show ?thesis by (simp add: fifo_inv_def)
  next
    case (denied rps evs)
    with f robots_events_proj(1,3) [OF denied(3)] show ?thesis
      by (simp add: fifo_inv_def)
  next
    case (failed rps evs)
    with f robots_events_proj(1,3) [OF failed(3)] show ?thesis
      by (simp add: fifo_inv_def)
  next
    case (break rps evs page mt)
    with f robots_events_proj(1,3) [OF break(3)] show ?thesis
      by (simp add: fifo_inv_def)
  next
    case (page rps evs page new)
    with f robots_events_proj(1,3) [OF page(3)] show ?thesis
      by (simp add: fifo_inv_def)
  qed
qed

text \<open>No URL is twice in the queue.\<close>

lemma distinct_queue_step:
  assumes "distinct (queue s)" and "loop_cond c s" and "crawl_body w c s = (b, s')"
  shows "distinct (queue s')"
proof -
  from assms(2) obtain u rest where q: "queue s = u # rest" by (rule loop_cond_queue)
  with assms(1) have d: "distinct rest" by simp
  from q assms(3) show ?thesis
  proof (cases rule: crawl_body_elim)
    case (page rps evs page new)
    from d have "distinct (queue (follow_links w c u (hrefs w page)
          (s\<lparr>queue := rest, seen := finsert u (seen s)\<rparr>)))"
      by (intro follow_links_distinct) simp
    with page(12) show ?thesis by simp
  qed (use d in simp_all)
qed

text \<open>
  Every URL that was popped is in \<open>seen\<close>, except the last one when the run was
  ended by the token budget.
\<close>

definition budget_reached :: "config \<Rightarrow> state \<Rightarrow> bool" where
  "budget_reached c s \<longleftrightarrow> (\<exists>mt. max_tokens c = Some mt \<and> mt \<le> token_count s)"

definition popped_inv :: "config \<Rightarrow> state \<Rightarrow> bool" where
  "popped_inv c s \<longleftrightarrow>
     (\<forall>u \<in> set (popped (trace s)).
        u |\<in>| seen s \<or> (u = last (popped (trace s)) \<and> budget_reached c s))"

lemma popped_inv_step:
  assumes "popped_inv c s" and "loop_cond c s" and "crawl_body w c s = (b, s')"
  shows "popped_inv c s'"
proof -
  from assms(2) obtain u rest where q: "queue s = u # rest" by (rule loop_cond_queue)
  from assms(2) have "\<not> budget_reached c s"
    by (auto simp: budget_reached_def loop_cond_def)
  with assms(1) have sub: "\<forall>x \<in> set (popped (trace s)). x |\<in>| seen s"
    by (auto simp: popped_inv_def)
  from q assms(3) show ?thesis
  proof (cases rule: crawl_body_elim)
    case seen
    with sub show ?thesis by (auto simp: popped_inv_def)
  next
    case (denied rps evs)
    with sub robots_events_proj(1) [OF denied(3)] show ?thesis
      by (auto simp: popped_inv_def)
  next
    case (failed rps evs)
    with sub robots_events_proj(1) [OF failed(3)] show ?thesis
      by (auto simp: popped_inv_def)
  next
    case (break rps evs page mt)
    with sub robots_events_proj(1) [OF break(3)] show ?thesis
      by (auto simp: popped_inv_def budget_reached_def)
  next
    case (page rps evs page new)
    with sub robots_events_proj(1) [OF page(3)] show ?thesis
      by (auto simp: popped_inv_def)
  qed
qed

subsection \<open>Example worlds\<close>

text \<open>
  A small \<^verbatim>\<open>urlparse\<close> and \<^verbatim>\<open>urljoin\<close> for the examples: they agree with the
  library on URLs of the form \<^verbatim>\<open>scheme://host/path\<close> and on links that are either
  absolute or start with a slash, which is all the examples use.
\<close>

definition example_urlparse :: "url \<Rightarrow> parse_result" where
  "example_urlparse u =
     (let sch = takeWhile (\<lambda>ch. ch \<noteq> CHR '':'') u in
      \<lparr>scheme = sch, netloc = takeWhile (\<lambda>ch. ch \<noteq> CHR ''/'') (drop (length sch + 3) u)\<rparr>)"

definition example_urljoin :: "url \<Rightarrow> string \<Rightarrow> url" where
  "example_urljoin b h =
     (if take 1 h = ''/''
      then scheme (example_urlparse b) @ ''://'' @ netloc (example_urlparse b) @ h
      else h)"

text \<open>
  A site whose robots.txt cannot be retrieved (the connection fails), while its pages
  answer 200.
\<close>

definition robots_down_world :: world where
  "robots_down_world =
     \<lparr>urlparse = example_urlparse, urljoin = example_urljoin,
      requests_get = (\<lambda>u. Some \<lparr>status_code = 200, body = u\<rparr>),
      robots_txt = (\<lambda>_. ReadRaises),
      extract_text = (\<lambda>_. ''hello world''),
      hrefs = (\<lambda>_. [])\<rparr>"

text \<open>A text of sixty words.\<close>

definition sixty_words :: string where
  "sixty_words = ''w'' @ concat (replicate 59 '' w'')"

text \<open>
  An endless chain of pages on one host: no robots.txt (404), every page answers 200,
  carries sixty words and links to the next page, whose URL is its own URL with an
  \<^verbatim>\<open>x\<close> appended. The body of a page is represented by its URL.
\<close>

definition chain_world :: world where
  "chain_world =
     \<lparr>urlparse = example_urlparse, urljoin = example_urljoin,
      requests_get = (\<lambda>u. Some \<lparr>status_code = 200, body = u\<rparr>),
      robots_txt = (\<lambda>_. ReadHTTPError 404),
      extract_text = (\<lambda>_. sixty_words),
      hrefs = (\<lambda>page. [page @ ''x''])\<rparr>"

text \<open>
  A site whose robots.txt is read and forbids everything to every agent, and whose
  pages would answer 200.
\<close>

definition robots_deny_world :: world where
  "robots_deny_world =
     \<lparr>urlparse = example_urlparse, urljoin = example_urljoin,
      requests_get = (\<lambda>u. Some \<lparr>status_code = 200, body = u\<rparr>),
      robots_txt = (\<lambda>_. ReadBody (\<lambda>_. False)),
      extract_text = (\<lambda>_. ''hello world''),
      hrefs = (\<lambda>_. [])\<rparr>"

subsection \<open>Evaluating the examples\<close>

lemma crawl_iter_fst:
  "fst (crawl_iter w c n s) \<Longrightarrow> crawl_loop w c s = snd (crawl_iter w c n s)"
  by (cases "crawl_iter w c n s") (auto dest: crawl_iter_done)

lemma sixty_words_count: "length (split_ws sixty_words) = 60"
  unfolding sixty_words_def by code_simp

lemma sixty_words_nonempty: "sixty_words \<noteq> []"
  by (simp add: sixty_words_def)

lemmas run_simps =
  crawl_def crawl_config_def init_state_def loop_cond_def crawl_body_def
  allowed_by_robots_def origin_def read_robots_def can_fetch_def new_parser_def
  fetch_url_def raise_for_status_def write_text_def follow_links_def follow_link_def
  Let_def fcard_fempty fcard_finsert_if example_urljoin_def example_urlparse_def
  sixty_words_nonempty sixty_words_count

lemma chain_three_run:
  "crawl_iter chain_world (crawl_config chain_world [''http://h/a''] 3 None None) 3
     (init_state [''http://h/a'']) =
   (True,
    \<lparr>seen = {|''http://h/axx'', ''http://h/ax'', ''http://h/a''|},
     queue = [''http://h/axxx''],
     robots_parsers = [''http://h'' \<mapsto> new_parser\<lparr>allow_all := True\<rparr>],
     token_count = 0,
     trace =
       [Pop ''http://h/a'', RobotsRead ''http://h/robots.txt'', Fetch ''http://h/a'',
        Write (sixty_words @ [CHR 0x0A, CHR 0x0A]), Push ''http://h/ax'', Sleep,
        Pop ''http://h/ax'', Fetch ''http://h/ax'',
        Write (sixty_words @ [CHR 0x0A, CHR 0x0A]), Push ''http://h/axx'', Sleep,
        Pop ''http://h/axx'', Fetch ''http://h/axx'',
        Write (sixty_words @ [CHR 0x0A, CHR 0x0A]), Push ''http://h/axxx'', Sleep]\<rparr>)"
  by (simp add: numeral_3_eq_3 run_simps chain_world_def)

lemma chain_tokens_run:
  "crawl_iter chain_world (crawl_config chain_world [''http://h/a''] 100 (Some 100) None) 2
     (init_state [''http://h/a'']) =
   (True,
    \<lparr>seen = {|''http://h/a''|},
     queue = [],
     robots_parsers = [''http://h'' \<mapsto> new_parser\<lparr>allow_all := True\<rparr>],
     token_count = 120,
     trace =
       [Pop ''http://h/a'', RobotsRead ''http://h/robots.txt'', Fetch ''http://h/a'',
        Write (sixty_words @ [CHR 0x0A, CHR 0x0A]), Push ''http://h/ax'', Sleep,
        Pop ''http://h/ax'', Fetch ''http://h/ax'',
        Write (sixty_words @ [CHR 0x0A, CHR 0x0A])]\<rparr>)"
  by (simp add: numeral_2_eq_2 run_simps chain_world_def)

lemma chain_budget_first_page:
  "crawl_iter chain_world (crawl_config chain_world [''http://h/a''] 10 (Some 50) None) 1
     (init_state [''http://h/a'']) =
   (True,
    \<lparr>seen = {||},
     queue = [],
     robots_parsers = [''http://h'' \<mapsto> new_parser\<lparr>allow_all := True\<rparr>],
     token_count = 60,
     trace =
       [Pop ''http://h/a'', RobotsRead ''http://h/robots.txt'', Fetch ''http://h/a'',
        Write (sixty_words @ [CHR 0x0A, CHR 0x0A])]\<rparr>)"
  by (simp add: run_simps chain_world_def)

section \<open>The robots check\<close>







section \<open>The token budget\<close>

lemma budget_break:
  assumes "max_tokens c = Some mt" and "queue s = u # rest" and "u |\<notin>| seen s"
    and "allowed_by_robots w u (robots_parsers s) = (True, rps, evs)"
    and "fetch_url w u = Some page" and "extract_text w page \<noteq> []"
    and "mt \<le> token_count s + int (length (split_ws (extract_text w page)))"
  shows "crawl_body w c s =
     (True, s\<lparr>queue := rest, robots_parsers := rps,
               trace := trace s @ Pop u # evs
                  @ [Fetch u, Write (extract_text w page @ [CHR 0x0A, CHR 0x0A])],
               token_count := token_count s + int (length (split_ws (extract_text w page)))\<rparr>)"
  using assms by (simp add: crawl_body_def write_text_eq)

text \<open>
  When every page carries sixty words and the budget is 100 tokens, the counter is
  sixty times the number of texts written, and at most two texts are written.
\<close>

definition sixty_inv :: "state \<Rightarrow> bool" where
  "sixty_inv s \<longleftrightarrow>
     token_count s = 60 * int (length (written (trace s)))
     \<and> length (written (trace s)) \<le> 2
     \<and> length (written (trace s)) \<le> length (fetched (trace s))"

lemma sixty_inv_step:
  assumes "sixty_inv s" and "loop_cond c s" and "crawl_body w c s = (b, s')"
    and "max_tokens c = Some 100"
    and "\<forall>page. length (split_ws (extract_text w page)) = 60"
  shows "sixty_inv s'"
proof -
  from assms(2) obtain u rest where q: "queue s = u # rest" by (rule loop_cond_queue)
  from assms(1) have t: "token_count s = 60 * int (length (written (trace s)))"
    and wf: "length (written (trace s)) \<le> length (fetched (trace s))"
    by (simp_all add: sixty_inv_def)
  from assms(2,4) have "token_count s < 100" by (simp add: loop_cond_def)
  with t have one: "length (written (trace s)) \<le> 1" by simp
  from q assms(3) show ?thesis
  proof (cases rule: crawl_body_elim)
    case seen
    with t one wf show ?thesis by (simp add: sixty_inv_def)
  next
    case (denied rps evs)
    with t one wf robots_events_proj(2,4) [OF denied(3)] show ?thesis
      by (simp add: sixty_inv_def)
  next
    case (failed rps evs)
    with t one wf robots_events_proj(2,4) [OF failed(3)] show ?thesis
      by (simp add: sixty_inv_def)
  next
    case (break rps evs page mt)
    with t one wf robots_events_proj(2,4) [OF break(3)] assms(5) show ?thesis
      by (simp add: sixty_inv_def)
  next
    case (page rps evs page new)
    with t one wf robots_events_proj(2,4) [OF page(3)] assms(4,5) show ?thesis
      by (simp add: sixty_inv_def)
  qed
qed

lemma sixty_words_two_pages:
  assumes "\<forall>page. length (split_ws (extract_text w page)) = 60"
  shows "length (written (trace (crawl w start_urls pages (Some 100) domains))) \<le> 2"
proof -
  let ?c = "crawl_config w start_urls pages (Some 100) domains"
  have "sixty_inv (crawl_loop w ?c (init_state start_urls))"
  proof (rule crawl_loop_invariant [where I = sixty_inv])
    show "sixty_inv (init_state start_urls)" by (simp add: sixty_inv_def init_state_def)
  next
    fix s b s'
    assume "sixty_inv s" "loop_cond ?c s" "crawl_body w ?c s = (b, s')"
    then show "sixty_inv s'"
      by (rule sixty_inv_step) (simp_all add: crawl_config_def assms)
  qed
  then show ?thesis by (simp add: sixty_inv_def crawl_def)
qed

lemma chain_tokens_fetched:
  "fetched (trace (crawl chain_world [''http://h/a''] 100 (Some 100) None))
     = [''http://h/a'', ''http://h/ax'']"
proof -
  let ?c = "crawl_config chain_world [''http://h/a''] 100 (Some 100) None"
  have "crawl_loop chain_world ?c (init_state [''http://h/a''])
      = snd (crawl_iter chain_world ?c 2 (init_state [''http://h/a'']))"
    by (rule crawl_iter_fst) (simp add: chain_tokens_run)
  then show ?thesis by (simp add: crawl_def chain_tokens_run)
qed

text \<open>
  C2: with a token budget \<open>mt\<close>, when the text of the page just fetched is not empty
  and brings the counter to \<open>mt\<close> or more, the run ends with that write: the final
  trace is the trace so far, the pop, the robots events, the fetch and the write, and
  nothing is fetched after. When every page carries sixty words and the budget is 100,
  at most two texts are written in any world, and in the chain of pages that link to
  each other exactly two pages are fetched.
\<close>

theorem token_budget_termination:
  "(\<forall>c s u rest rps evs page mt.
      max_tokens c = Some mt \<and> loop_cond c s \<and> queue s = u # rest \<and> u |\<notin>| seen s
      \<and> allowed_by_robots w u (robots_parsers s) = (True, rps, evs)
      \<and> fetch_url w u = Some page \<and> extract_text w page \<noteq> []
      \<and> mt \<le> token_count s + int (length (split_ws (extract_text w page)))
      \<longrightarrow> trace (crawl_loop w c s)
            = trace s @ Pop u # evs
                @ [Fetch u, Write (extract_text w page @ [CHR 0x0A, CHR 0x0A])]
          \<and> fetched (trace (crawl_loop w c s)) = fetched (trace s) @ [u])
   \<and> ((\<forall>page. length (split_ws (extract_text w page)) = 60)
        \<longrightarrow> length (written (trace (crawl w start_urls pages (Some 100) domains))) \<le> 2)
   \<and> fetched (trace (crawl chain_world [''http://h/a''] 100 (Some 100) None))
        = [''http://h/a'', ''http://h/ax'']"
proof (intro conjI allI impI)
  fix c s u rest rps evs page mt
  assume a: "max_tokens c = Some mt \<and> loop_cond c s \<and> queue s = u # rest \<and> u |\<notin>| seen s
      \<and> allowed_by_robots w u (robots_parsers s) = (True, rps, evs)
      \<and> fetch_url w u = Some page \<and> extract_text w page \<noteq> []
      \<and> mt \<le> token_count s + int (length (split_ws (extract_text w page)))"
  then have b: "crawl_body w c s =
     (True, s\<lparr>queue := rest, robots_parsers := rps,
               trace := trace s @ Pop u # evs
                  @ [Fetch u, Write (extract_text w page @ [CHR 0x0A, CHR 0x0A])],
               token_count := token_count s + int (length (split_ws (extract_text w page)))\<rparr>)"
    by (intro budget_break) blast+
  from a have "loop_cond c s" by blast
  from crawl_loop_break [OF this b]
  show "trace (crawl_loop w c s)
            = trace s @ Pop u # evs
                @ [Fetch u, Write (extract_text w page @ [CHR 0x0A, CHR 0x0A])]"
    by simp
  from a have "fetched evs = []" by (blast intro: robots_events_proj(2))
  with crawl_loop_break [OF \<open>loop_cond c s\<close> b]
  show "fetched (trace (crawl_loop w c s)) = fetched (trace s) @ [u]"
    by simp
next
  assume "\<forall>page. length (split_ws (extract_text w page)) = 60"
  then show "length (written (trace (crawl w start_urls pages (Some 100) domains))) \<le> 2"
    by (rule sixty_words_two_pages)
next
  show "fetched (trace (crawl chain_world [''http://h/a''] 100 (Some 100) None))
        = [''http://h/a'', ''http://h/ax'']"
    by (rule chain_tokens_fetched)
qed

theorem token_budget_termination_witness:
  "(\<forall>page. length (split_ws (extract_text chain_world page)) = 60)
   \<and> length (written (trace (crawl chain_world [''http://h/a''] 100 (Some 100) None))) \<le> 2
   \<and> trace (crawl_loop chain_world
         (crawl_config chain_world [''http://h/a''] 10 (Some 50) None)
         (init_state [''http://h/a'']))
       = [Pop ''http://h/a'', RobotsRead ''http://h/robots.txt'', Fetch ''http://h/a'',
          Write (sixty_words @ [CHR 0x0A, CHR 0x0A])]"
proof -
  note t = token_budget_termination [of chain_world "[''http://h/a'']" 100 None]
  have h: "\<forall>page. length (split_ws (extract_text chain_world page)) = 60"
    by (simp add: chain_world_def sixty_words_count)
  from t h have two:
    "length (written (trace (crawl chain_world [''http://h/a''] 100 (Some 100) None))) \<le> 2"
    by blast
  let ?c = "crawl_config chain_world [''http://h/a''] 10 (Some 50) None"
  have pre: "max_tokens ?c = Some 50 \<and> loop_cond ?c (init_state [''http://h/a''])
      \<and> queue (init_state [''http://h/a'']) = ''http://h/a'' # []
      \<and> ''http://h/a'' |\<notin>| seen (init_state [''http://h/a''])
      \<and> allowed_by_robots chain_world ''http://h/a'' (robots_parsers (init_state [''http://h/a'']))
          = (True, [''http://h'' \<mapsto> new_parser\<lparr>allow_all := True\<rparr>],
             [RobotsRead ''http://h/robots.txt''])
      \<and> fetch_url chain_world ''http://h/a'' = Some ''http://h/a''
      \<and> extract_text chain_world ''http://h/a'' \<noteq> []
      \<and> 50 \<le> token_count (init_state [''http://h/a''])
           + int (length (split_ws (extract_text chain_world ''http://h/a'')))"
    by (simp add: run_simps chain_world_def)
  from t [THEN conjunct1, rule_format, OF pre]
  have "trace (crawl_loop chain_world ?c (init_state [''http://h/a'']))
       = [Pop ''http://h/a'', RobotsRead ''http://h/robots.txt'', Fetch ''http://h/a'',
          Write (sixty_words @ [CHR 0x0A, CHR 0x0A])]"
    by (simp add: init_state_def chain_world_def)
  with h two show ?thesis by blast
qed

section \<open>The visited set\<close>

lemma body_seen_effect:
  assumes "queue s = u # rest" and "crawl_body w c s = (b, s')"
  shows "if b then seen s' = seen s \<and> budget_reached c s'
         else seen s' = finsert u (seen s)"
  using assms
proof (cases rule: crawl_body_elim)
  case seen
  then show ?thesis by (simp add: finsert_absorb)
next
  case (break rps evs page mt)
  then show ?thesis by (simp add: budget_reached_def)
qed simp_all

lemma popped_inv_init: "popped_inv c (init_state start_urls)"
  by (simp add: popped_inv_def init_state_def)

lemma chain_budget_final:
  "crawl chain_world [''http://h/a''] 10 (Some 50) None =
    \<lparr>seen = {||},
     queue = [],
     robots_parsers = [''http://h'' \<mapsto> new_parser\<lparr>allow_all := True\<rparr>],
     token_count = 60,
     trace =
       [Pop ''http://h/a'', RobotsRead ''http://h/robots.txt'', Fetch ''http://h/a'',
        Write (sixty_words @ [CHR 0x0A, CHR 0x0A])]\<rparr>"
  unfolding crawl_def by (rule crawl_iter_done [OF chain_budget_first_page])

text \<open>
  C3, as stated, fails: the page whose text reaches the token budget is popped, fetched
  and written, and the loop is left by \<^verbatim>\<open>break\<close> before \<^verbatim>\<open>seen.add(url)\<close>. With a
  budget of 50 tokens and a first page of sixty words, the run ends with the seed popped
  and not in \<open>seen\<close>.
\<close>

theorem visited_on_dequeue_counterexample:
  "''http://h/a'' \<in> set (popped (trace (crawl chain_world [''http://h/a''] 10 (Some 50) None)))
   \<and> ''http://h/a'' |\<notin>| seen (crawl chain_world [''http://h/a''] 10 (Some 50) None)"
  by (simp add: chain_budget_final)

text \<open>
  C3, amended: an iteration that pops \<open>u\<close> and does not leave the loop ends with
  \<open>seen\<close> extended by \<open>u\<close> (robots denied, fetch failed, page processed, or \<open>u\<close>
  seen already); the iteration that leaves the loop by \<^verbatim>\<open>break\<close> leaves \<open>seen\<close> as it
  was, and then the token budget is reached. So after any number of iterations, and at
  the end of the run, every URL that was popped is in \<open>seen\<close>, except the last one
  popped when the token budget is reached.
\<close>

theorem popped_urls_visited:
  "(\<forall>s u rest b s'. queue s = u # rest \<and> crawl_body w c s = (b, s') \<longrightarrow>
       (if b then seen s' = seen s \<and> budget_reached c s'
        else seen s' = finsert u (seen s)))
   \<and> popped_inv (crawl_config w start_urls pages tokens domains)
        (snd (crawl_iter w (crawl_config w start_urls pages tokens domains) n
           (init_state start_urls)))
   \<and> (\<forall>u \<in> set (popped (trace (crawl w start_urls pages tokens domains))).
         u |\<in>| seen (crawl w start_urls pages tokens domains)
         \<or> (u = last (popped (trace (crawl w start_urls pages tokens domains)))
            \<and> budget_reached (crawl_config w start_urls pages tokens domains)
                 (crawl w start_urls pages tokens domains)))"
proof (intro conjI allI impI)
  fix s u rest b s'
  assume "queue s = u # rest \<and> crawl_body w c s = (b, s')"
  then show "if b then seen s' = seen s \<and> budget_reached c s'
        else seen s' = finsert u (seen s)"
    using body_seen_effect [of s u rest w c b s'] by blast
next
  let ?c = "crawl_config w start_urls pages tokens domains"
  show "popped_inv ?c (snd (crawl_iter w ?c n (init_state start_urls)))"
    by (rule crawl_iter_invariant [where I = "popped_inv ?c"])
       (auto intro: popped_inv_init popped_inv_step)
  have "popped_inv ?c (crawl_loop w ?c (init_state start_urls))"
    by (rule crawl_loop_invariant [where I = "popped_inv ?c"])
       (auto intro: popped_inv_init popped_inv_step)
  then show "\<forall>u \<in> set (popped (trace (crawl w start_urls pages tokens domains))).
         u |\<in>| seen (crawl w start_urls pages tokens domains)
         \<or> (u = last (popped (trace (crawl w start_urls pages tokens domains)))
            \<and> budget_reached ?c (crawl w start_urls pages tokens domains))"
    by (simp add: popped_inv_def crawl_def)
qed

lemma robots_down_run:
  "crawl_iter robots_down_world (crawl_config robots_down_world [''http://h/a''] 10 None None) 1
     (init_state [''http://h/a'']) =
   (True,
    \<lparr>seen = {|''http://h/a''|}, queue = [],
     robots_parsers = [''http://h'' \<mapsto> new_parser],
     token_count = 0,
     trace = [Pop ''http://h/a'', RobotsRead ''http://h/robots.txt'']\<rparr>)"
  by (simp add: run_simps robots_down_world_def)

theorem popped_urls_visited_witness:
  "queue (init_state [''http://h/a'']) = ''http://h/a'' # []
   \<and> seen (snd (crawl_body robots_down_world
          (crawl_config robots_down_world [''http://h/a''] 10 None None)
          (init_state [''http://h/a''])))
       = finsert ''http://h/a'' (seen (init_state [''http://h/a'']))
   \<and> ''http://h/a'' \<in> set (popped (trace (crawl chain_world [''http://h/a''] 10 (Some 50) None)))
   \<and> budget_reached (crawl_config chain_world [''http://h/a''] 10 (Some 50) None)
         (crawl chain_world [''http://h/a''] 10 (Some 50) None)"
proof -
  let ?c = "crawl_config robots_down_world [''http://h/a''] 10 None None"
  let ?s = "init_state [''http://h/a'']"
  have q: "queue ?s = ''http://h/a'' # []" by (simp add: init_state_def)
  have b: "crawl_body robots_down_world ?c ?s
      = (False, snd (crawl_body robots_down_world ?c ?s))"
    by (simp add: run_simps robots_down_world_def)
  from popped_urls_visited [of robots_down_world ?c, THEN conjunct1, rule_format,
      of ?s "''http://h/a''" "[]" False "snd (crawl_body robots_down_world ?c ?s)"] q b
  have 1: "seen (snd (crawl_body robots_down_world ?c ?s)) = finsert ''http://h/a'' (seen ?s)"
    by simp
  have p: "''http://h/a'' \<in> set (popped (trace (crawl chain_world [''http://h/a''] 10 (Some 50) None)))"
    and n: "''http://h/a'' |\<notin>| seen (crawl chain_world [''http://h/a''] 10 (Some 50) None)"
    by (simp_all add: chain_budget_final)
  from popped_urls_visited [of chain_world ?c "[''http://h/a'']" 10 "Some 50" None 0,
      THEN conjunct2, THEN conjunct2, rule_format, OF p] n
  have "budget_reached (crawl_config chain_world [''http://h/a''] 10 (Some 50) None)
         (crawl chain_world [''http://h/a''] 10 (Some 50) None)"
    by blast
  with q 1 p show ?thesis by blast
qed

section \<open>The page limit\<close>

lemma crawl_iter_running: "crawl_iter w c n s = (False, s') \<Longrightarrow> loop_cond c s'"
proof (induction n arbitrary: s)
  case 0
  then show ?case by auto
next
  case (Suc n)
  then show ?case
    by (auto split: if_splits prod.splits bool.splits)
qed

text \<open>One more iteration, taken at the end.\<close>

lemma crawl_iter_Suc_end:
  "crawl_iter w c (Suc n) s =
     (case crawl_iter w c n s of
        (True, t) \<Rightarrow> (True, t)
      | (False, t) \<Rightarrow>
          (case crawl_body w c t of
             (True, t') \<Rightarrow> (True, t')
           | (False, t') \<Rightarrow> (\<not> loop_cond c t', t')))"
proof (induction n arbitrary: s)
  case 0
  show ?case by (simp split: prod.splits bool.splits)
next
  case (Suc n)
  show ?case
  proof (cases "loop_cond c s")
    case False
    then show ?thesis by simp
  next
    case True
    obtain b t where b: "crawl_body w c s = (b, t)" by (cases "crawl_body w c s") auto
    show ?thesis
    proof (cases b)
      case True
      with b \<open>loop_cond c s\<close> show ?thesis by simp
    next
      case False
      with b \<open>loop_cond c s\<close> have "crawl_iter w c (Suc (Suc n)) s = crawl_iter w c (Suc n) t"
        and "crawl_iter w c (Suc n) s = crawl_iter w c n t"
        by simp_all
      with Suc.IH [of t] show ?thesis by (simp only:)
    qed
  qed
qed

lemma fetch_needs_guard:
  assumes "fetched (trace (snd (crawl_iter w c (Suc n) s)))
           \<noteq> fetched (trace (snd (crawl_iter w c n s)))"
  shows "loop_cond c (snd (crawl_iter w c n s))"
proof -
  obtain d t where it: "crawl_iter w c n s = (d, t)" by (cases "crawl_iter w c n s") auto
  show ?thesis
  proof (cases d)
    case True
    with it assms show ?thesis by (simp add: crawl_iter_Suc_end del: crawl_iter.simps)
  next
    case False
    with it crawl_iter_running [of w c n s t] show ?thesis by simp
  qed
qed

lemma crawl_fetched_bound:
  "int (length (fetched (trace (crawl w start_urls pages tokens domains)))) \<le> max 0 pages"
proof -
  let ?c = "crawl_config w start_urls pages tokens domains"
  have "bound_inv ?c (crawl_loop w ?c (init_state start_urls))"
    by (rule crawl_loop_invariant [where I = "bound_inv ?c"])
       (auto intro: bound_inv_init bound_inv_step)
  then show ?thesis by (simp add: bound_inv_def crawl_def crawl_config_def)
qed

lemma chain_three_final:
  "crawl chain_world [''http://h/a''] 3 None None =
    \<lparr>seen = {|''http://h/axx'', ''http://h/ax'', ''http://h/a''|},
     queue = [''http://h/axxx''],
     robots_parsers = [''http://h'' \<mapsto> new_parser\<lparr>allow_all := True\<rparr>],
     token_count = 0,
     trace =
       [Pop ''http://h/a'', RobotsRead ''http://h/robots.txt'', Fetch ''http://h/a'',
        Write (sixty_words @ [CHR 0x0A, CHR 0x0A]), Push ''http://h/ax'', Sleep,
        Pop ''http://h/ax'', Fetch ''http://h/ax'',
        Write (sixty_words @ [CHR 0x0A, CHR 0x0A]), Push ''http://h/axx'', Sleep,
        Pop ''http://h/axx'', Fetch ''http://h/axx'',
        Write (sixty_words @ [CHR 0x0A, CHR 0x0A]), Push ''http://h/axxx'', Sleep]\<rparr>"
  unfolding crawl_def by (rule crawl_iter_done [OF chain_three_run])

text \<open>
  C4: an iteration that fetches a page was entered with the guard of the loop true:
  the size of \<open>seen\<close> below \<open>max_pages\<close> and, when there is a token budget, the token
  counter below it. So a run fetches at most \<open>max_pages\<close> pages; and with
  \<open>max_pages = 3\<close>, no token budget and the endless chain of pages that link to each
  other on an allowed host, exactly three pages are fetched.
\<close>

theorem page_limit:
  "(fetched (trace (snd (crawl_iter w c (Suc n) s)))
        \<noteq> fetched (trace (snd (crawl_iter w c n s)))
      \<longrightarrow> int (fcard (seen (snd (crawl_iter w c n s)))) < max_pages c
          \<and> (case max_tokens c of
                None \<Rightarrow> True
              | Some mt \<Rightarrow> token_count (snd (crawl_iter w c n s)) < mt))
   \<and> int (length (fetched (trace (crawl w start_urls pages tokens domains)))) \<le> max 0 pages
   \<and> fetched (trace (crawl chain_world [''http://h/a''] 3 None None))
        = [''http://h/a'', ''http://h/ax'', ''http://h/axx'']"
proof (intro conjI impI)
  assume "fetched (trace (snd (crawl_iter w c (Suc n) s)))
        \<noteq> fetched (trace (snd (crawl_iter w c n s)))"
  then have g: "loop_cond c (snd (crawl_iter w c n s))" by (rule fetch_needs_guard)
  from g show "int (fcard (seen (snd (crawl_iter w c n s)))) < max_pages c"
    by (simp add: loop_cond_def)
  from g show "case max_tokens c of
                None \<Rightarrow> True
              | Some mt \<Rightarrow> token_count (snd (crawl_iter w c n s)) < mt"
    by (simp add: loop_cond_def)
next
  show "int (length (fetched (trace (crawl w start_urls pages tokens domains)))) \<le> max 0 pages"
    by (rule crawl_fetched_bound)
next
  show "fetched (trace (crawl chain_world [''http://h/a''] 3 None None))
        = [''http://h/a'', ''http://h/ax'', ''http://h/axx'']"
    by (simp add: chain_three_final)
qed

lemma chain_first_iteration:
  "crawl_iter chain_world (crawl_config chain_world [''http://h/a''] 3 None None) (Suc 0)
     (init_state [''http://h/a'']) =
   (False,
    \<lparr>seen = {|''http://h/a''|},
     queue = [''http://h/ax''],
     robots_parsers = [''http://h'' \<mapsto> new_parser\<lparr>allow_all := True\<rparr>],
     token_count = 0,
     trace =
       [Pop ''http://h/a'', RobotsRead ''http://h/robots.txt'', Fetch ''http://h/a'',
        Write (sixty_words @ [CHR 0x0A, CHR 0x0A]), Push ''http://h/ax'', Sleep]\<rparr>)"
  by (simp add: run_simps chain_world_def)

theorem page_limit_witness:
  "fetched (trace (snd (crawl_iter chain_world
       (crawl_config chain_world [''http://h/a''] 3 None None) (Suc 0)
       (init_state [''http://h/a'']))))
     \<noteq> fetched (trace (snd (crawl_iter chain_world
       (crawl_config chain_world [''http://h/a''] 3 None None) 0
       (init_state [''http://h/a'']))))
   \<and> int (fcard (seen (snd (crawl_iter chain_world
       (crawl_config chain_world [''http://h/a''] 3 None None) 0
       (init_state [''http://h/a'']))))) < 3
   \<and> length (fetched (trace (crawl chain_world [''http://h/a''] 3 None None))) = 3"
proof -
  let ?c = "crawl_config chain_world [''http://h/a''] 3 None None"
  let ?s = "init_state [''http://h/a'']"
  note p = page_limit [of chain_world ?c 0 ?s "[''http://h/a'']" 3 None None]
  have ne: "fetched (trace (snd (crawl_iter chain_world ?c (Suc 0) ?s)))
     \<noteq> fetched (trace (snd (crawl_iter chain_world ?c 0 ?s)))"
    unfolding chain_first_iteration by (simp add: init_state_def)
  with p have "int (fcard (seen (snd (crawl_iter chain_world ?c 0 ?s)))) < max_pages ?c"
    by blast
  then have lt: "int (fcard (seen (snd (crawl_iter chain_world ?c 0 ?s)))) < 3"
    by (simp add: crawl_config_def)
  from p have "fetched (trace (crawl chain_world [''http://h/a''] 3 None None))
        = [''http://h/a'', ''http://h/ax'', ''http://h/axx'']" by blast
  then have "length (fetched (trace (crawl chain_world [''http://h/a''] 3 None None))) = 3"
    by simp
  with ne lt show ?thesis by blast
qed

section \<open>Links\<close>




section \<open>The frontier\<close>

lemma follow_link_idem:
  "follow_link w c u (follow_link w c u s h) h = follow_link w c u s h"
  by (simp add: follow_link_eq)

lemma follow_link_twice_count:
  assumes "eligible w c (urljoin w u h)" and "urljoin w u h |\<notin>| seen s"
    and "urljoin w u h \<notin> set (queue s)"
  shows "count_list (queue (follow_link w c u (follow_link w c u s h) h)) (urljoin w u h) = 1"
  using assms by (simp add: follow_link_idem follow_link_eq count_list_0_iff)

lemma iter_queue_distinct:
  assumes "distinct start_urls"
  shows "distinct (queue (snd (crawl_iter w c n (init_state start_urls))))"
  by (rule crawl_iter_invariant [where I = "\<lambda>s. distinct (queue s)"])
     (auto simp: init_state_def assms intro: distinct_queue_step)

lemma crawl_queue_distinct:
  assumes "distinct start_urls"
  shows "distinct (queue (crawl w start_urls pages tokens domains))"
  unfolding crawl_def
  by (rule crawl_loop_invariant [where I = "\<lambda>s. distinct (queue s)"])
     (auto simp: init_state_def assms intro: distinct_queue_step)

text \<open>
  C6, as stated, fails for the seeds: \<^verbatim>\<open>queue = list(start_urls)\<close> copies the seed list
  as it is, so a seed given twice is twice in the queue.
\<close>

theorem seed_duplicates_counterexample:
  "\<not> distinct (queue (init_state [''http://h/a'', ''http://h/a'']))"
  by (simp add: init_state_def)

text \<open>
  C6, amended: following the same link twice is the same as following it once, and
  when the link is eligible and new, it is then exactly once in the queue. Following
  the links of a page keeps a queue free of duplicates so; and when the seed list has
  no duplicates, the queue has none after any number of iterations and at the end of
  the run.
\<close>

theorem pending_no_duplicates:
  "follow_link w c u (follow_link w c u s h) h = follow_link w c u s h
   \<and> (eligible w c (urljoin w u h) \<and> urljoin w u h |\<notin>| seen s
        \<and> urljoin w u h \<notin> set (queue s)
      \<longrightarrow> count_list (queue (follow_link w c u (follow_link w c u s h) h)) (urljoin w u h) = 1)
   \<and> (distinct (queue s) \<longrightarrow> distinct (queue (follow_links w c u hs s)))
   \<and> (distinct start_urls
      \<longrightarrow> distinct (queue (snd (crawl_iter w c n (init_state start_urls))))
          \<and> distinct (queue (crawl w start_urls pages tokens domains)))"
  using follow_link_idem [of w c u s h] follow_link_twice_count [of w c u h s]
    follow_links_distinct [of s w c u hs] iter_queue_distinct [of start_urls w c n]
    crawl_queue_distinct [of start_urls w pages tokens domains]
  by blast

theorem pending_no_duplicates_witness:
  "distinct [''http://h/a'']
   \<and> distinct (queue (crawl chain_world [''http://h/a''] 3 None None))
   \<and> count_list (queue (follow_link chain_world
         (crawl_config chain_world [''http://h/a''] 3 None None) ''http://h/a''
         (follow_link chain_world (crawl_config chain_world [''http://h/a''] 3 None None)
            ''http://h/a'' (init_state []) ''http://h/ax'') ''http://h/ax'')) ''http://h/ax'' = 1"
proof -
  let ?c = "crawl_config chain_world [''http://h/a''] 3 None None"
  note p = pending_no_duplicates [of chain_world ?c "''http://h/a''" "init_state []"
      "''http://h/ax''" "[]" "[''http://h/a'']" 0 3 None None]
  have d: "distinct [''http://h/a'']" by simp
  with p have 1: "distinct (queue (crawl chain_world [''http://h/a''] 3 None None))" by blast
  have j: "urljoin chain_world ''http://h/a'' ''http://h/ax'' = ''http://h/ax''"
    by (simp add: chain_world_def example_urljoin_def)
  have "eligible chain_world ?c (urljoin chain_world ''http://h/a'' ''http://h/ax'')
      \<and> urljoin chain_world ''http://h/a'' ''http://h/ax'' |\<notin>| seen (init_state [])
      \<and> urljoin chain_world ''http://h/a'' ''http://h/ax'' \<notin> set (queue (init_state []))"
    by (simp add: eligible_def chain_world_def example_urljoin_def example_urlparse_def
        crawl_config_def init_state_def)
  with p have "count_list (queue (follow_link chain_world ?c ''http://h/a''
         (follow_link chain_world ?c ''http://h/a'' (init_state []) ''http://h/ax'')
         ''http://h/ax'')) (urljoin chain_world ''http://h/a'' ''http://h/ax'') = 1"
    by blast
  with d 1 show ?thesis unfolding j by blast
qed

section \<open>No URL is fetched twice\<close>

lemma follow_link_seen_noop: "urljoin w u h |\<in>| seen s \<Longrightarrow> follow_link w c u s h = s"
  by (simp add: follow_link_eq)

lemma iter_fetched_distinct:
  "distinct (fetched (trace (snd (crawl_iter w c n (init_state start_urls)))))"
proof -
  have "fetched_inv c (snd (crawl_iter w c n (init_state start_urls)))"
    by (rule crawl_iter_invariant [where I = "fetched_inv c"])
       (auto intro: fetched_inv_init fetched_inv_step)
  then show ?thesis by (simp add: fetched_inv_def)
qed

lemma seen_skip:
  "queue s = u # rest \<Longrightarrow> u |\<in>| seen s
   \<Longrightarrow> crawl_body w c s = (False, s\<lparr>queue := rest, trace := trace s @ [Pop u]\<rparr>)"
  by (simp add: crawl_body_def)

text \<open>
  C7: in a run, and after any number of its iterations, no URL is fetched twice. A
  link that resolves to a URL in \<open>seen\<close> leaves the state as it is, and a popped URL
  that is in \<open>seen\<close> is dropped: the iteration only removes it from the queue, with no
  robots check and no fetch.
\<close>

theorem no_refetch:
  "distinct (fetched (trace (crawl w start_urls pages tokens domains)))
   \<and> distinct (fetched (trace (snd (crawl_iter w c n (init_state start_urls)))))
   \<and> (urljoin w p h |\<in>| seen s \<longrightarrow> follow_link w c p s h = s)
   \<and> (queue s = u # rest \<and> u |\<in>| seen s
      \<longrightarrow> crawl_body w c s = (False, s\<lparr>queue := rest, trace := trace s @ [Pop u]\<rparr>))"
  using crawl_fetched_distinct [of w start_urls pages tokens domains]
    iter_fetched_distinct [of w c n start_urls] follow_link_seen_noop [of w p h s c]
    seen_skip [of s u rest w c]
  by blast

text \<open>
  A seed given twice: the second copy is popped when the URL is in \<open>seen\<close>, and
  nothing is fetched for it.
\<close>

theorem no_refetch_witness:
  "queue ((init_state [''http://h/a''])\<lparr>seen := {|''http://h/a''|}\<rparr>) = ''http://h/a'' # []
   \<and> ''http://h/a'' |\<in>| seen ((init_state [''http://h/a''])\<lparr>seen := {|''http://h/a''|}\<rparr>)
   \<and> fetched (trace (snd (crawl_body chain_world
          (crawl_config chain_world [''http://h/a''] 3 None None)
          ((init_state [''http://h/a''])\<lparr>seen := {|''http://h/a''|}\<rparr>)))) = []
   \<and> follow_link chain_world (crawl_config chain_world [''http://h/a''] 3 None None)
        ''http://h/ax'' ((init_state [''http://h/a''])\<lparr>seen := {|''http://h/a''|}\<rparr>) ''http://h/a''
      = (init_state [''http://h/a''])\<lparr>seen := {|''http://h/a''|}\<rparr>"
proof -
  let ?c = "crawl_config chain_world [''http://h/a''] 3 None None"
  let ?s = "(init_state [''http://h/a''])\<lparr>seen := {|''http://h/a''|}\<rparr>"
  note p = no_refetch [where w = chain_world and c = ?c and p = "''http://h/ax''"
      and h = "''http://h/a''" and s = ?s and u = "''http://h/a''" and rest = "[]"]
  have q: "queue ?s = ''http://h/a'' # []" and m: "''http://h/a'' |\<in>| seen ?s"
    by (simp_all add: init_state_def)
  with p have "crawl_body chain_world ?c ?s
      = (False, ?s\<lparr>queue := [], trace := trace ?s @ [Pop ''http://h/a'']\<rparr>)"
    by blast
  then have 1: "fetched (trace (snd (crawl_body chain_world ?c ?s))) = []"
    by (simp add: init_state_def)
  have "urljoin chain_world ''http://h/ax'' ''http://h/a'' |\<in>| seen ?s"
    by (simp add: chain_world_def example_urljoin_def init_state_def)
  with p have 2: "follow_link chain_world ?c ''http://h/ax'' ?s ''http://h/a'' = ?s"
    by blast
  from q m 1 2 show ?thesis by blast
qed

section \<open>The order of the queue\<close>

lemma fifo_inv_init: "fifo_inv start_urls (init_state start_urls)"
  by (simp add: fifo_inv_def init_state_def)

lemma iter_fifo:
  "fifo_inv start_urls (snd (crawl_iter w c n (init_state start_urls)))"
  by (rule crawl_iter_invariant [where I = "fifo_inv start_urls"])
     (auto intro: fifo_inv_init fifo_inv_step)

lemma crawl_fifo: "fifo_inv start_urls (crawl w start_urls pages tokens domains)"
  unfolding crawl_def
  by (rule crawl_loop_invariant [where I = "fifo_inv start_urls"])
     (auto intro: fifo_inv_init fifo_inv_step)

lemma fifo_inv_nth:
  assumes "fifo_inv start_urls s" and "i < length (popped (trace s))"
  shows "popped (trace s) ! i = (start_urls @ pushed (trace s)) ! i"
proof -
  from assms(1) have "(start_urls @ pushed (trace s)) ! i = (popped (trace s) @ queue s) ! i"
    by (simp add: fifo_inv_def)
  with assms(2) show ?thesis by (simp add: nth_append)
qed

lemma body_pops_head:
  assumes "queue s = u # rest"
  shows "popped (trace (snd (crawl_body w c s))) = popped (trace s) @ [u]"
proof -
  obtain b s' where b: "crawl_body w c s = (b, s')" by (cases "crawl_body w c s") auto
  from assms b have "popped (trace s') = popped (trace s) @ [u]"
  proof (cases rule: crawl_body_elim)
    case (denied rps evs)
    with robots_events_proj(1) [OF denied(3)] show ?thesis by simp
  next
    case (failed rps evs)
    with robots_events_proj(1) [OF failed(3)] show ?thesis by simp
  next
    case (break rps evs page mt)
    with robots_events_proj(1) [OF break(3)] show ?thesis by simp
  next
    case (page rps evs page new)
    with robots_events_proj(1) [OF page(3)] show ?thesis by simp
  qed simp
  with b show ?thesis by simp
qed

lemma follow_links_tail: "\<exists>new. queue (follow_links w c p hs s) = queue s @ new"
  using follow_links_appends [of w c p hs s] by blast

text \<open>
  C8: an iteration pops the head of the queue, and links are appended at its tail. So
  after any number of iterations, and at the end of the run, the URLs popped so far
  followed by the queue are the seeds followed by the URLs pushed so far, in that
  order: the \<open>i\<close>-th URL popped is the \<open>i\<close>-th URL that entered the queue.
\<close>

theorem fifo_order:
  "(queue s = u # rest
      \<longrightarrow> popped (trace (snd (crawl_body w c s))) = popped (trace s) @ [u])
   \<and> (\<exists>new. queue (follow_links w c p hs s) = queue s @ new)
   \<and> popped (trace (snd (crawl_iter w c n (init_state start_urls))))
         @ queue (snd (crawl_iter w c n (init_state start_urls)))
       = start_urls @ pushed (trace (snd (crawl_iter w c n (init_state start_urls))))
   \<and> popped (trace (crawl w start_urls pages tokens domains))
         @ queue (crawl w start_urls pages tokens domains)
       = start_urls @ pushed (trace (crawl w start_urls pages tokens domains))
   \<and> (\<forall>i < length (popped (trace (crawl w start_urls pages tokens domains))).
         popped (trace (crawl w start_urls pages tokens domains)) ! i
         = (start_urls @ pushed (trace (crawl w start_urls pages tokens domains))) ! i)"
  using body_pops_head [of s u rest w c] follow_links_tail [of w c p hs s]
    iter_fifo [of start_urls w c n, unfolded fifo_inv_def]
    crawl_fifo [of start_urls w pages tokens domains, unfolded fifo_inv_def]
    fifo_inv_nth [OF crawl_fifo [of start_urls w pages tokens domains]]
  by blast

theorem fifo_order_witness:
  "popped (trace (crawl chain_world [''http://h/a''] 3 None None))
     = [''http://h/a'', ''http://h/ax'', ''http://h/axx'']
   \<and> [''http://h/a''] @ pushed (trace (crawl chain_world [''http://h/a''] 3 None None))
     = [''http://h/a'', ''http://h/ax'', ''http://h/axx'', ''http://h/axxx'']
   \<and> (1::nat) < length (popped (trace (crawl chain_world [''http://h/a''] 3 None None)))
   \<and> popped (trace (crawl chain_world [''http://h/a''] 3 None None)) ! 1
     = ([''http://h/a''] @ pushed (trace (crawl chain_world [''http://h/a''] 3 None None))) ! 1"
proof -
  have a: "popped (trace (crawl chain_world [''http://h/a''] 3 None None))
     = [''http://h/a'', ''http://h/ax'', ''http://h/axx'']"
    and b: "[''http://h/a''] @ pushed (trace (crawl chain_world [''http://h/a''] 3 None None))
     = [''http://h/a'', ''http://h/ax'', ''http://h/axx'', ''http://h/axxx'']"
    by (simp_all add: chain_three_final)
  from a have l: "(1::nat) < length (popped (trace (crawl chain_world [''http://h/a''] 3 None None)))"
    by simp
  from fifo_order [where w = chain_world and start_urls = "[''http://h/a'']" and pages = 3
      and tokens = None and domains = None] l
  have "popped (trace (crawl chain_world [''http://h/a''] 3 None None)) ! 1
     = ([''http://h/a''] @ pushed (trace (crawl chain_world [''http://h/a''] 3 None None))) ! 1"
    by blast
  with a b l show ?thesis by blast
qed

section \<open>The delay\<close>

lemma robots_deny_final:
  "crawl robots_deny_world [''http://h/a''] 10 None None =
    \<lparr>seen = {|''http://h/a''|}, queue = [],
     robots_parsers =
       [''http://h'' \<mapsto> new_parser\<lparr>last_checked := True, rules := \<lambda>_. False\<rparr>],
     token_count = 0,
     trace = [Pop ''http://h/a'', RobotsRead ''http://h/robots.txt'']\<rparr>"
proof -
  have "crawl_iter robots_deny_world
      (crawl_config robots_deny_world [''http://h/a''] 10 None None) (Suc 0)
      (init_state [''http://h/a'']) =
    (True,
     \<lparr>seen = {|''http://h/a''|}, queue = [],
      robots_parsers =
        [''http://h'' \<mapsto> new_parser\<lparr>last_checked := True, rules := \<lambda>_. False\<rparr>],
      token_count = 0,
      trace = [Pop ''http://h/a'', RobotsRead ''http://h/robots.txt'']\<rparr>)"
    by (simp add: run_simps robots_deny_world_def)
  then show ?thesis unfolding crawl_def by (rule crawl_iter_done)
qed

lemma robots_events_no_fetch:
  assumes "allowed_by_robots w u rps = (ok, rps', evs)"
  shows "Fetch x \<notin> set evs"
  using allowed_by_robots_events [OF assms] by auto

lemma body_delay:
  assumes "queue s = u # rest" and "crawl_body w c s = (b, s')"
  shows "\<exists>evs. trace s' = trace s @ evs
           \<and> (Sleep \<in> set evs) = (Fetch u \<in> set evs \<and> \<not> b)
           \<and> (Sleep \<in> set evs \<longrightarrow> last evs = Sleep)
           \<and> (Fetch u \<in> set evs) =
               (u |\<notin>| seen s \<and> fst (allowed_by_robots w u (robots_parsers s)))"
  using assms
proof (cases rule: crawl_body_elim)
  case seen
  then have "trace s' = trace s @ [Pop u]" by simp
  with seen show ?thesis by auto
next
  case (denied rps evs)
  then have "trace s' = trace s @ (Pop u # evs)" by simp
  with denied robots_events_proj(5) [OF denied(3)] robots_events_no_fetch [OF denied(3)]
  show ?thesis by auto
next
  case (failed rps evs)
  then have "trace s' = trace s @ (Pop u # evs @ [Fetch u, Sleep])" by simp
  with failed show ?thesis by auto
next
  case (break rps evs page mt)
  then have "trace s' = trace s @ (Pop u # evs
      @ [Fetch u, Write (extract_text w page @ [CHR 0x0A, CHR 0x0A])])" by simp
  with break robots_events_proj(5) [OF break(3)] show ?thesis by auto
next
  case (page rps evs page new)
  then have "trace s' = trace s @ (Pop u # evs @ [Fetch u]
          @ (if extract_text w page = [] then []
             else [Write (extract_text w page @ [CHR 0x0A, CHR 0x0A])])
          @ map Push new @ [Sleep])" by simp
  with page show ?thesis by auto
qed

text \<open>
  C9, as stated, fails: a URL that robots.txt denies is marked as seen and the loop
  goes on by \<^verbatim>\<open>continue\<close> with no \<^verbatim>\<open>time.sleep\<close>. Here the only seed is denied, and
  the whole run holds no delay.
\<close>

theorem delay_every_outcome_counterexample:
  "popped (trace (crawl robots_deny_world [''http://h/a''] 10 None None)) = [''http://h/a'']
   \<and> Sleep \<notin> set (trace (crawl robots_deny_world [''http://h/a''] 10 None None))"
  by (simp add: robots_deny_final)

text \<open>
  C9, amended: the events of the iteration that pops \<open>u\<close> hold a delay exactly when
  they hold a fetch of \<open>u\<close> and the loop is not left by \<^verbatim>\<open>break\<close>, and the delay then
  is the last event of the iteration. The fetch is issued exactly when \<open>u\<close> is not in
  \<open>seen\<close> and robots.txt allows it. So the delay follows a failed fetch and a processed
  page, and there is none after a URL that robots.txt denies.
\<close>

theorem delay_after_fetch:
  "queue s = u # rest \<and> crawl_body w c s = (b, s') \<longrightarrow>
     (\<exists>evs. trace s' = trace s @ evs
           \<and> (Sleep \<in> set evs) = (Fetch u \<in> set evs \<and> \<not> b)
           \<and> (Sleep \<in> set evs \<longrightarrow> last evs = Sleep)
           \<and> (Fetch u \<in> set evs) =
               (u |\<notin>| seen s \<and> fst (allowed_by_robots w u (robots_parsers s))))"
  using body_delay [of s u rest w c b s'] by blast

lemma chain_first_body:
  "crawl_body chain_world (crawl_config chain_world [''http://h/a''] 3 None None)
     (init_state [''http://h/a'']) =
   (False,
    \<lparr>seen = {|''http://h/a''|},
     queue = [''http://h/ax''],
     robots_parsers = [''http://h'' \<mapsto> new_parser\<lparr>allow_all := True\<rparr>],
     token_count = 0,
     trace =
       [Pop ''http://h/a'', RobotsRead ''http://h/robots.txt'', Fetch ''http://h/a'',
        Write (sixty_words @ [CHR 0x0A, CHR 0x0A]), Push ''http://h/ax'', Sleep]\<rparr>)"
  by (simp add: run_simps chain_world_def)

theorem delay_after_fetch_witness:
  "queue (init_state [''http://h/a'']) = ''http://h/a'' # []
   \<and> (\<exists>evs. [Pop ''http://h/a'', RobotsRead ''http://h/robots.txt'', Fetch ''http://h/a'',
        Write (sixty_words @ [CHR 0x0A, CHR 0x0A]), Push ''http://h/ax'', Sleep]
        = trace (init_state [''http://h/a'']) @ evs
      \<and> Sleep \<in> set evs \<and> Fetch ''http://h/a'' \<in> set evs \<and> last evs = Sleep)"
proof -
  have q: "queue (init_state [''http://h/a'']) = ''http://h/a'' # []"
    by (simp add: init_state_def)
  from delay_after_fetch [where w = chain_world
      and c = "crawl_config chain_world [''http://h/a''] 3 None None"
      and s = "init_state [''http://h/a'']" and u = "''http://h/a''" and rest = "[]",
      THEN mp, OF conjI [OF q chain_first_body]]
  obtain evs where e: "[Pop ''http://h/a'', RobotsRead ''http://h/robots.txt'', Fetch ''http://h/a'',
        Write (sixty_words @ [CHR 0x0A, CHR 0x0A]), Push ''http://h/ax'', Sleep]
        = trace (init_state [''http://h/a'']) @ evs"
    and i: "(Sleep \<in> set evs) = (Fetch ''http://h/a'' \<in> set evs \<and> \<not> False)"
    and l: "Sleep \<in> set evs \<longrightarrow> last evs = Sleep"
    by auto
  from e have "Sleep \<in> set evs" by (auto simp: init_state_def)
  with e i l q show ?thesis by blast
qed

section \<open>What counts towards the page limit\<close>

lemma body_outcomes:
  assumes "queue s = u # rest" and "u |\<notin>| seen s" and "crawl_body w c s = (b, s')"
  shows "(\<not> fst (allowed_by_robots w u (robots_parsers s))
            \<longrightarrow> \<not> b \<and> seen s' = finsert u (seen s)
                \<and> fetched (trace s') = fetched (trace s)
                \<and> written (trace s') = written (trace s))
       \<and> (fst (allowed_by_robots w u (robots_parsers s)) \<and> fetch_url w u = None
            \<longrightarrow> \<not> b \<and> seen s' = finsert u (seen s)
                \<and> fetched (trace s') = fetched (trace s) @ [u]
                \<and> written (trace s') = written (trace s))
       \<and> (fst (allowed_by_robots w u (robots_parsers s))
          \<and> (\<exists>page. fetch_url w u = Some page \<and> extract_text w page = [])
            \<longrightarrow> \<not> b \<and> seen s' = finsert u (seen s)
                \<and> fetched (trace s') = fetched (trace s) @ [u]
                \<and> written (trace s') = written (trace s))"
  using assms(1,3)
proof (cases rule: crawl_body_elim)
  case seen
  with assms(2) show ?thesis by simp
next
  case (denied rps evs)
  with robots_events_proj(2,4) [OF denied(3)] show ?thesis by simp
next
  case (failed rps evs)
  with robots_events_proj(2,4) [OF failed(3)] show ?thesis by simp
next
  case (break rps evs page mt)
  then show ?thesis by simp
next
  case (page rps evs page new)
  with robots_events_proj(2,4) [OF page(3)] show ?thesis by simp
qed

lemma crawl_seen_bound:
  "int (fcard (seen (crawl w start_urls pages tokens domains))) \<le> max 0 pages"
proof -
  let ?c = "crawl_config w start_urls pages tokens domains"
  have "bound_inv ?c (crawl_loop w ?c (init_state start_urls))"
    by (rule crawl_loop_invariant [where I = "bound_inv ?c"])
       (auto intro: bound_inv_init bound_inv_step)
  then show ?thesis by (simp add: bound_inv_def crawl_def crawl_config_def)
qed

lemma crawl_written_nonempty:
  "\<forall>t \<in> set (written (trace (crawl w start_urls pages tokens domains))).
     \<exists>txt. txt \<noteq> [] \<and> t = txt @ [CHR 0x0A, CHR 0x0A]"
proof -
  have "written_inv (crawl w start_urls pages tokens domains)"
    unfolding crawl_def
  proof (rule crawl_loop_invariant [where I = written_inv])
    show "written_inv (init_state start_urls)"
      by (simp add: written_inv_def init_state_def)
  next
    fix s b s'
    assume "written_inv s"
      and "loop_cond (crawl_config w start_urls pages tokens domains) s"
      and "crawl_body w (crawl_config w start_urls pages tokens domains) s = (b, s')"
    then show "written_inv s'" by (rule written_inv_step)
  qed
  then show ?thesis by (simp add: written_inv_def)
qed

text \<open>
  C10: a popped URL that was not seen is added to \<open>seen\<close> when robots.txt denies it
  (nothing is fetched), when its fetch fails, and when its page is fetched and the
  extracted text is empty (nothing is written in either case). The guard of the loop
  compares the size of \<open>seen\<close> with \<open>max_pages\<close>, so the size of \<open>seen\<close> at the end of
  a run is at most \<open>max_pages\<close>; and every text written is a text that is not empty,
  followed by an empty line.
\<close>

theorem attempts_count_as_pages:
  "(queue s = u # rest \<and> u |\<notin>| seen s \<and> crawl_body w c s = (b, s') \<longrightarrow>
       (\<not> fst (allowed_by_robots w u (robots_parsers s))
            \<longrightarrow> \<not> b \<and> seen s' = finsert u (seen s)
                \<and> fetched (trace s') = fetched (trace s)
                \<and> written (trace s') = written (trace s))
       \<and> (fst (allowed_by_robots w u (robots_parsers s)) \<and> fetch_url w u = None
            \<longrightarrow> \<not> b \<and> seen s' = finsert u (seen s)
                \<and> fetched (trace s') = fetched (trace s) @ [u]
                \<and> written (trace s') = written (trace s))
       \<and> (fst (allowed_by_robots w u (robots_parsers s))
          \<and> (\<exists>page. fetch_url w u = Some page \<and> extract_text w page = [])
            \<longrightarrow> \<not> b \<and> seen s' = finsert u (seen s)
                \<and> fetched (trace s') = fetched (trace s) @ [u]
                \<and> written (trace s') = written (trace s)))
   \<and> (loop_cond c s \<longrightarrow> int (fcard (seen s)) < max_pages c)
   \<and> int (fcard (seen (crawl w start_urls pages tokens domains))) \<le> max 0 pages
   \<and> (\<forall>t \<in> set (written (trace (crawl w start_urls pages tokens domains))).
         \<exists>txt. txt \<noteq> [] \<and> t = txt @ [CHR 0x0A, CHR 0x0A])"
proof (intro conjI)
  show "queue s = u # rest \<and> u |\<notin>| seen s \<and> crawl_body w c s = (b, s') \<longrightarrow>
       (\<not> fst (allowed_by_robots w u (robots_parsers s))
            \<longrightarrow> \<not> b \<and> seen s' = finsert u (seen s)
                \<and> fetched (trace s') = fetched (trace s)
                \<and> written (trace s') = written (trace s))
       \<and> (fst (allowed_by_robots w u (robots_parsers s)) \<and> fetch_url w u = None
            \<longrightarrow> \<not> b \<and> seen s' = finsert u (seen s)
                \<and> fetched (trace s') = fetched (trace s) @ [u]
                \<and> written (trace s') = written (trace s))
       \<and> (fst (allowed_by_robots w u (robots_parsers s))
          \<and> (\<exists>page. fetch_url w u = Some page \<and> extract_text w page = [])
            \<longrightarrow> \<not> b \<and> seen s' = finsert u (seen s)
                \<and> fetched (trace s') = fetched (trace s) @ [u]
                \<and> written (trace s') = written (trace s))"
    using body_outcomes [of s u rest w c b s'] by blast
  show "loop_cond c s \<longrightarrow> int (fcard (seen s)) < max_pages c"
    by (simp add: loop_cond_def)
  show "int (fcard (seen (crawl w start_urls pages tokens domains))) \<le> max 0 pages"
    by (rule crawl_seen_bound)
  show "\<forall>t \<in> set (written (trace (crawl w start_urls pages tokens domains))).
         \<exists>txt. txt \<noteq> [] \<and> t = txt @ [CHR 0x0A, CHR 0x0A]"
    by (rule crawl_written_nonempty)
qed

text \<open>
  With \<open>max_pages = 1\<close> and two seeds of a site that denies everything, the first seed
  is denied and fills \<open>seen\<close>; the second is never popped, and nothing is fetched or
  written.
\<close>

lemma deny_two_seeds_body:
  "crawl_body robots_deny_world
     (crawl_config robots_deny_world [''http://h/a'', ''http://h/b''] 1 None None)
     (init_state [''http://h/a'', ''http://h/b'']) =
   (False,
    \<lparr>seen = {|''http://h/a''|}, queue = [''http://h/b''],
     robots_parsers =
       [''http://h'' \<mapsto> new_parser\<lparr>last_checked := True, rules := \<lambda>_. False\<rparr>],
     token_count = 0,
     trace = [Pop ''http://h/a'', RobotsRead ''http://h/robots.txt'']\<rparr>)"
  by (simp add: run_simps robots_deny_world_def)

theorem attempts_count_as_pages_witness:
  "queue (init_state [''http://h/a'', ''http://h/b'']) = ''http://h/a'' # [''http://h/b'']
   \<and> ''http://h/a'' |\<notin>| seen (init_state [''http://h/a'', ''http://h/b''])
   \<and> \<not> fst (allowed_by_robots robots_deny_world ''http://h/a''
           (robots_parsers (init_state [''http://h/a'', ''http://h/b''])))
   \<and> seen (snd (crawl_body robots_deny_world
          (crawl_config robots_deny_world [''http://h/a'', ''http://h/b''] 1 None None)
          (init_state [''http://h/a'', ''http://h/b''])))
       = finsert ''http://h/a'' (seen (init_state [''http://h/a'', ''http://h/b'']))
   \<and> \<not> loop_cond (crawl_config robots_deny_world [''http://h/a'', ''http://h/b''] 1 None None)
         (snd (crawl_body robots_deny_world
          (crawl_config robots_deny_world [''http://h/a'', ''http://h/b''] 1 None None)
          (init_state [''http://h/a'', ''http://h/b''])))"
proof -
  let ?c = "crawl_config robots_deny_world [''http://h/a'', ''http://h/b''] 1 None None"
  let ?s = "init_state [''http://h/a'', ''http://h/b'']"
  let ?s' = "snd (crawl_body robots_deny_world ?c ?s)"
  note p = attempts_count_as_pages [where w = robots_deny_world and c = ?c and s = ?s
      and u = "''http://h/a''" and rest = "[''http://h/b'']" and b = False and s' = ?s']
  have q: "queue ?s = ''http://h/a'' # [''http://h/b'']"
    and n: "''http://h/a'' |\<notin>| seen ?s"
    by (simp_all add: init_state_def)
  have d: "\<not> fst (allowed_by_robots robots_deny_world ''http://h/a'' (robots_parsers ?s))"
    by (simp add: run_simps robots_deny_world_def)
  have b: "crawl_body robots_deny_world ?c ?s = (False, ?s')"
    by (simp add: deny_two_seeds_body)
  from p q n d b have 1: "seen ?s' = finsert ''http://h/a'' (seen ?s)" by blast
  have "int (fcard (seen ?s')) = 1"
    by (simp add: deny_two_seeds_body fcard_finsert_if fcard_fempty)
  moreover from attempts_count_as_pages [where w = robots_deny_world and c = ?c and s = ?s']
  have "loop_cond ?c ?s' \<longrightarrow> int (fcard (seen ?s')) < max_pages ?c" by blast
  moreover have "max_pages ?c = 1" by (simp add: crawl_config_def)
  ultimately have 2: "\<not> loop_cond ?c ?s'" by auto
  from q n d 1 2 show ?thesis by blast
qed

end
